theory Spec2Isabelle
  imports Complex_Main "HOL-Library.Sublist" "HOL-Library.AList"
begin

section \<open>Text and character classes\<close>

text \<open>
  A Python \<open>str\<close> is modelled as a \<open>string\<close>, each \<open>char\<close> standing for the code
  point of the same number (0 to 255). The predicates below are the ones Python's
  \<open>re\<close> module and \<open>str\<close> methods use for such code points: \<open>\s\<close> and \<open>str.split\<close>
  share the whitespace test, \<open>\w\<close> is "alphanumeric or underscore", and
  \<open>str.lower\<close> maps the upper-case letters of that range to their lower-case ones.
\<close>

definition code :: "char \<Rightarrow> nat" where
  "code c = of_char c"

definition is_space :: "char \<Rightarrow> bool" where
  "is_space c = (let n = code c in
     (9 \<le> n \<and> n \<le> 13) \<or> (28 \<le> n \<and> n \<le> 32) \<or> n = 133 \<or> n = 160)"

definition is_word :: "char \<Rightarrow> bool" where
  "is_word c = (let n = code c in
     (48 \<le> n \<and> n \<le> 57) \<or> (65 \<le> n \<and> n \<le> 90) \<or> n = 95 \<or> (97 \<le> n \<and> n \<le> 122)
     \<or> n = 170 \<or> n = 178 \<or> n = 179 \<or> n = 181 \<or> n = 185 \<or> n = 186
     \<or> (188 \<le> n \<and> n \<le> 190) \<or> (192 \<le> n \<and> n \<le> 214)
     \<or> (216 \<le> n \<and> n \<le> 246) \<or> (248 \<le> n \<and> n \<le> 255))"

definition lower_char :: "char \<Rightarrow> char" where
  "lower_char c = (let n = code c in
     if (65 \<le> n \<and> n \<le> 90) \<or> (192 \<le> n \<and> n \<le> 214) \<or> (216 \<le> n \<and> n \<le> 222)
     then char_of (n + 32) else c)"

definition upper_char :: "char \<Rightarrow> char" where
  "upper_char c = (let n = code c in
     if (97 \<le> n \<and> n \<le> 122) \<or> (224 \<le> n \<and> n \<le> 246) \<or> (248 \<le> n \<and> n \<le> 254)
     then char_of (n - 32) else c)"

definition lower :: "string \<Rightarrow> string" where
  "lower s = map lower_char s"

section \<open>Regular expressions as Python's \<open>re\<close> module runs them\<close>

text \<open>
  The patterns of \<open>sanitize_sensitive_data\<close> use literals, character sets, groups,
  alternation and the greedy and lazy repetitions. The matcher below is the backtracking
  search of \<open>re\<close>: it lists, in the order in which backtracking tries them, every way
  the pattern can match a prefix of the text, as the captured groups and the text left
  over. The first element of the list is the match \<open>re\<close> reports.
\<close>

datatype citem = Ch char | Rng char char | Word | Space | NonSpace

datatype regex =
    Str string
  | Cls bool "citem list"
  | Seq regex regex
  | Alt regex regex
  | Star regex
  | LazyStar regex
  | Grp nat regex

type_synonym caps = "(nat \<times> string) list"

fun citem_match :: "citem \<Rightarrow> char \<Rightarrow> bool" where
  "citem_match (Ch c) x = (x = c)"
| "citem_match (Rng a b) x = (code a \<le> code x \<and> code x \<le> code b)"
| "citem_match Word x = is_word x"
| "citem_match Space x = is_space x"
| "citem_match NonSpace x = (\<not> is_space x)"

definition in_set :: "bool \<Rightarrow> citem list \<Rightarrow> char \<Rightarrow> bool" where
  "in_set ic items x =
     (if ic then list_ex (\<lambda>i. citem_match i (lower_char x)) items
                 \<or> list_ex (\<lambda>i. citem_match i (upper_char (lower_char x))) items
      else list_ex (\<lambda>i. citem_match i x) items)"

definition cls_match :: "bool \<Rightarrow> bool \<Rightarrow> citem list \<Rightarrow> char \<Rightarrow> bool" where
  "cls_match ic neg items x = (in_set ic items x \<noteq> neg)"

definition chr_eq :: "bool \<Rightarrow> char \<Rightarrow> char \<Rightarrow> bool" where
  \<comment> \<open>a literal character of the pattern against a character of the text\<close>
  "chr_eq ic c x = (if ic then lower_char x = lower_char c else x = c)"

fun str_match :: "bool \<Rightarrow> string \<Rightarrow> string \<Rightarrow> string option" where
  "str_match ic [] s = Some s"
| "str_match ic (c # w) [] = None"
| "str_match ic (c # w) (x # s) = (if chr_eq ic c x then str_match ic w s else None)"

function rmatch :: "bool \<Rightarrow> regex \<Rightarrow> caps \<times> string \<Rightarrow> (caps \<times> string) list" where
  "rmatch ic (Str w) cs =
     (case str_match ic w (snd cs) of None \<Rightarrow> [] | Some s' \<Rightarrow> [(fst cs, s')])"
| "rmatch ic (Cls neg items) cs =
     (case snd cs of
        [] \<Rightarrow> []
      | x # xs \<Rightarrow> if cls_match ic neg items x then [(fst cs, xs)] else [])"
| "rmatch ic (Seq r1 r2) cs = concat (map (rmatch ic r2) (rmatch ic r1 cs))"
| "rmatch ic (Alt r1 r2) cs = rmatch ic r1 cs @ rmatch ic r2 cs"
| "rmatch ic (Star r) cs =
     concat (map (\<lambda>cs'. if length (snd cs') < length (snd cs)
                          then rmatch ic (Star r) cs' else [])
                 (rmatch ic r cs)) @ [cs]"
| "rmatch ic (LazyStar r) cs =
     cs # concat (map (\<lambda>cs'. if length (snd cs') < length (snd cs)
                               then rmatch ic (LazyStar r) cs' else [])
                      (rmatch ic r cs))"
| "rmatch ic (Grp n r) cs =
     map (\<lambda>cs'. ((n, take (length (snd cs) - length (snd cs')) (snd cs)) # fst cs', snd cs'))
         (rmatch ic r cs)"
  by pat_completeness auto
termination
  by (relation "measures [\<lambda>(ic, r, cs). size r, \<lambda>(ic, r, cs). length (snd cs)]") auto

declare rmatch.simps(5) [simp del] rmatch.simps(6) [simp del]

text \<open>
  The texts a pattern can match, whatever the order in which backtracking finds the
  matches: every match the matcher lists is one of these (shown below), which is what the
  proofs about all texts of a given shape rest on.
\<close>

fun lang :: "bool \<Rightarrow> regex \<Rightarrow> string set" where
  "lang ic (Str w) = {m. list_all2 (chr_eq ic) w m}"
| "lang ic (Cls neg items) = {m. \<exists>x. m = [x] \<and> cls_match ic neg items x}"
| "lang ic (Seq r1 r2) = {m. \<exists>x y. m = x @ y \<and> x \<in> lang ic r1 \<and> y \<in> lang ic r2}"
| "lang ic (Alt r1 r2) = lang ic r1 \<union> lang ic r2"
| "lang ic (Star r) = {m. \<exists>ms. m = concat ms \<and> set ms \<subseteq> lang ic r}"
| "lang ic (LazyStar r) = {m. \<exists>ms. m = concat ms \<and> set ms \<subseteq> lang ic r}"
| "lang ic (Grp n r) = lang ic r"

definition Plus :: "regex \<Rightarrow> regex" where
  "Plus r = Seq r (Star r)"

definition Opt :: "regex \<Rightarrow> regex" where
  "Opt r = Alt r (Str [])"

primrec AtLeast :: "nat \<Rightarrow> regex \<Rightarrow> regex" where
  "AtLeast 0 r = Star r"
| "AtLeast (Suc n) r = Seq r (AtLeast n r)"

text \<open>
  A replacement template is text with group references (\<open>\1\<close>); a group that did not
  take part in the match expands to the empty string.
\<close>

datatype ritem = RLit string | RGrp nat

fun expand :: "ritem list \<Rightarrow> caps \<Rightarrow> string" where
  "expand [] c = []"
| "expand (RLit w # rs) c = w @ expand rs c"
| "expand (RGrp n # rs) c = (case map_of c n of Some g \<Rightarrow> g | None \<Rightarrow> []) @ expand rs c"

definition match_at :: "bool \<Rightarrow> regex \<Rightarrow> string \<Rightarrow> (caps \<times> string) option" where
  "match_at ic r s = (case rmatch ic r ([], s) of [] \<Rightarrow> None | m # _ \<Rightarrow> Some m)"

text \<open>
  \<open>re.sub\<close>: scan from the left; at each position take the match found there, write the
  expanded replacement and go on after the match; where nothing matches, copy one
  character. An empty match writes the replacement and then copies one character.
\<close>

function re_sub :: "bool \<Rightarrow> regex \<Rightarrow> ritem list \<Rightarrow> string \<Rightarrow> string" where
  "re_sub ic r rep s =
     (case match_at ic r s of
        Some (c, s') \<Rightarrow>
          if length s' < length s then expand rep c @ re_sub ic r rep s'
          else expand rep c @ (case s of [] \<Rightarrow> [] | x # xs \<Rightarrow> x # re_sub ic r rep xs)
      | None \<Rightarrow> (case s of [] \<Rightarrow> [] | x # xs \<Rightarrow> x # re_sub ic r rep xs))"
  by pat_completeness auto
termination
  by (relation "measure (\<lambda>(ic, r, rep, s). length s)") auto

declare re_sub.simps [simp del]


section \<open>The redaction rules\<close>

fun seqs :: "regex list \<Rightarrow> regex" where
  "seqs [] = Str []"
| "seqs [r] = r"
| "seqs (r # rs) = Seq r (seqs rs)"

fun alts :: "regex list \<Rightarrow> regex" where
  "alts [] = Cls False []"
| "alts [r] = r"
| "alts (r # rs) = Alt r (alts rs)"

definition ws :: regex where
  \<comment> \<open>\<open>\s*\<close>\<close>
  "ws = Star (Cls False [Space])"

definition assign :: regex where
  \<comment> \<open>\<open>[=:]\<close>\<close>
  "assign = Cls False [Ch (CHR ''=''), Ch (CHR '':'')]"

definition quote :: regex where
  \<comment> \<open>\<open>["\']?\<close>\<close>
  "quote = Opt (Cls False [Ch (CHR 0x22), Ch (CHR 0x27)])"

definition word_hyphen :: regex where
  \<comment> \<open>\<open>[\w-]\<close>\<close>
  "word_hyphen = Cls False [Word, Ch (CHR ''-'')]"

definition not_space_quote :: regex where
  \<comment> \<open>\<open>[^\s"\']\<close>\<close>
  "not_space_quote = Cls True [Space, Ch (CHR 0x22), Ch (CHR 0x27)]"

definition non_space :: regex where
  \<comment> \<open>\<open>\S\<close>\<close>
  "non_space = Cls False [NonSpace]"

definition upper_underscore :: regex where
  \<comment> \<open>\<open>[A-Z_]\<close>\<close>
  "upper_underscore = Cls False [Rng (CHR ''A'') (CHR ''Z''), Ch (CHR ''_'')]"

definition sk_key :: regex where
  \<comment> \<open>\<open>(sk-[a-zA-Z0-9-]{20,})\<close>\<close>
  "sk_key = Grp 1 (seqs [Str ''sk-'',
                        AtLeast 20 (Cls False [Rng (CHR ''a'') (CHR ''z''), Rng (CHR ''A'') (CHR ''Z''),
                                               Rng (CHR ''0'') (CHR ''9''), Ch (CHR ''-'')])])"

definition key_prefix :: "regex \<Rightarrow> regex" where
  \<comment> \<open>\<open>(name\s*[=:]\s*)\<close>, the first group of the assignment rules\<close>
  "key_prefix name = Grp 1 (seqs [name, ws, assign, ws])"

definition redacted :: "ritem list" where
  \<comment> \<open>\<open>r'\1[REDACTED]'\<close>\<close>
  "redacted = [RGrp 1, RLit ''[REDACTED]'']"

text \<open>The list \<open>patterns\<close> of the source, in its order: pattern, replacement, IGNORECASE.\<close>

definition patterns :: "(regex \<times> ritem list \<times> bool) list" where
  "patterns =
   [ (seqs [key_prefix (seqs [Str ''api'', Opt (Cls False [Ch (CHR ''_''), Ch (CHR ''-'')]), Str ''key'']),
            quote, AtLeast 20 word_hyphen, quote],
      redacted, False),
     (seqs [key_prefix (Str ''OPENROUTER_API_KEY''), quote, Plus word_hyphen, quote],
      redacted, False),
     (sk_key, [RLit ''[REDACTED_API_KEY]''], False),
     (seqs [key_prefix (seqs [Plus upper_underscore, Str ''_API_KEY'']), Plus non_space],
      redacted, False),
     (seqs [key_prefix (Str ''password''), quote, Plus not_space_quote, quote], redacted, True),
     (seqs [key_prefix (Str ''passwd''), quote, Plus not_space_quote, quote], redacted, True),
     (seqs [key_prefix (Str ''pwd''), quote, Plus not_space_quote, quote], redacted, True),
     (seqs [key_prefix (Str ''secret''), quote, Plus word_hyphen, quote], redacted, True),
     (seqs [key_prefix (Str ''token''), quote, AtLeast 20 word_hyphen, quote], redacted, True),
     (seqs [key_prefix (Str ''auth''), quote, Plus word_hyphen, quote], redacted, True),
     (seqs [key_prefix (Str ''oauth_token''), Plus non_space], redacted, True),
     (seqs [key_prefix (Str ''access_token''), Plus non_space], redacted, True),
     (seqs [Grp 1 (seqs [Str ''Bearer'', Plus (Cls False [Space])]),
            Plus (Cls False [Rng (CHR ''A'') (CHR ''Z''), Rng (CHR ''a'') (CHR ''z''),
                             Rng (CHR ''0'') (CHR ''9''), Ch (CHR ''-''), Ch (CHR ''.''),
                             Ch (CHR ''_''), Ch (CHR ''~''), Ch (CHR ''+''), Ch (CHR ''/'')]),
            Star (Str ''='')],
      redacted, False),
     (seqs [Grp 1 (seqs [Str ''Basic'', Plus (Cls False [Space])]),
            AtLeast 20 (Cls False [Rng (CHR ''a'') (CHR ''z''), Rng (CHR ''A'') (CHR ''Z''),
                                   Rng (CHR ''0'') (CHR ''9''), Ch (CHR ''+''), Ch (CHR ''/''),
                                   Ch (CHR ''='')])],
      redacted, False),
     (seqs [Str ''http'', Opt (Str ''s''), Str ''://'', Star (Cls True [Space]),
            Grp 1 (alts [Str ''webhook'', Str ''hooks'']), Star (Cls True [Space])],
      [RLit ''[REDACTED_WEBHOOK_URL]''], True),
     (seqs [Str ''-----BEGIN'', Star (Cls False [Rng (CHR ''A'') (CHR ''Z''), Space]),
            Str ''PRIVATE KEY-----'', LazyStar (Cls False [Space, NonSpace]),
            Str ''-----END'', Star (Cls False [Rng (CHR ''A'') (CHR ''Z''), Space]),
            Str ''PRIVATE KEY-----''],
      [RLit ''[REDACTED_PRIVATE_KEY]''], False),
     (seqs [Grp 1 (seqs [Star upper_underscore,
                         Grp 2 (alts [Str ''SECRET'', Str ''PASSWORD'', Str ''TOKEN'', Str ''KEY'',
                                      Str ''CREDENTIAL'']),
                         Star upper_underscore, ws, assign, ws]),
            Plus non_space],
      redacted, False) ]"

text \<open>
  The loop of the source: each rule rewrites the result of the rules before it. An empty
  text is returned as it is.
\<close>

definition sanitize_sensitive_data :: "string \<Rightarrow> string" where
  "sanitize_sensitive_data text =
     (if text = [] then text
      else foldl (\<lambda>result (pattern, replacement, flags). re_sub flags pattern replacement result)
                 text patterns)"


text \<open>
  \<open>re.search\<close>: is there a match at some position of the text. A text contains a
  recognised secret shape when some rule of the list finds a match in it.
\<close>

fun re_search :: "bool \<Rightarrow> regex \<Rightarrow> string \<Rightarrow> bool" where
  "re_search ic r [] = (case match_at ic r [] of None \<Rightarrow> False | Some m \<Rightarrow> True)"
| "re_search ic r (x # xs) =
     (case match_at ic r (x # xs) of None \<Rightarrow> re_search ic r xs | Some m \<Rightarrow> True)"




section \<open>Python values, exceptions and arithmetic\<close>

text \<open>
  The dictionaries the recorder builds and the documents it reads back with
  \<open>json.load\<close> are values of one type. A \<open>float\<close> is idealised as the rational number it
  stands for. Every exception the modelled code can raise is a value.
\<close>

datatype exn =
    KeyError string | TypeError | AttributeError | JSONDecodeError | IsADirectoryError
  | FileNotFoundError | ZeroDivisionError

datatype json =
    JNull | JBool bool | JInt int | JNum rat | JStr string | JArr "json list"
  | JObj "(string \<times> json) list"

definition bind_exn :: "exn + 'a \<Rightarrow> ('a \<Rightarrow> exn + 'b) \<Rightarrow> exn + 'b" where
  "bind_exn m f = (case m of Inl e \<Rightarrow> Inl e | Inr v \<Rightarrow> f v)"

fun getitem :: "json \<Rightarrow> string \<Rightarrow> exn + json" where
  "getitem (JObj kvs) k = (case map_of kvs k of None \<Rightarrow> Inl (KeyError k) | Some v \<Rightarrow> Inr v)"
| "getitem _ k = Inl TypeError"

fun get_default :: "json \<Rightarrow> string \<Rightarrow> json \<Rightarrow> exn + json" where
  "get_default (JObj kvs) k d = Inr (case map_of kvs k of None \<Rightarrow> d | Some v \<Rightarrow> v)"
| "get_default _ k d = Inl AttributeError"

fun setitem :: "json \<Rightarrow> string \<Rightarrow> json \<Rightarrow> exn + json" where
  "setitem (JObj kvs) k v = Inr (JObj (AList.update k v kvs))"
| "setitem _ k v = Inl TypeError"

fun is_int :: "json \<Rightarrow> bool" where
  \<comment> \<open>\<open>isinstance(x, int)\<close>; a \<open>bool\<close> is an \<open>int\<close>\<close>
  "is_int (JInt n) = True"
| "is_int (JBool b) = True"
| "is_int _ = False"

fun is_number :: "json \<Rightarrow> bool" where
  \<comment> \<open>\<open>isinstance(x, (int, float))\<close>\<close>
  "is_number (JNum x) = True"
| "is_number v = is_int v"

fun int_val :: "json \<Rightarrow> int" where
  "int_val (JInt n) = n"
| "int_val (JBool b) = (if b then 1 else 0)"
| "int_val _ = 0"

fun num_val :: "json \<Rightarrow> rat" where
  "num_val (JNum x) = x"
| "num_val v = of_int (int_val v)"

definition py_add :: "json \<Rightarrow> json \<Rightarrow> exn + json" where
  \<comment> \<open>\<open>a + b\<close> where \<open>b\<close> is a number\<close>
  "py_add a b =
     (if is_int a \<and> is_int b then Inr (JInt (int_val a + int_val b))
      else if is_number a \<and> is_number b then Inr (JNum (num_val a + num_val b))
      else Inl TypeError)"

definition round_half_even :: "rat \<Rightarrow> int" where
  "round_half_even x =
     (let f = \<lfloor>x\<rfloor>; d = x - of_int f
      in if d < 1 / 2 then f else if 1 / 2 < d then f + 1 else if even f then f else f + 1)"

definition round_to :: "nat \<Rightarrow> rat \<Rightarrow> rat" where
  \<comment> \<open>\<open>round(x, n)\<close> on a float\<close>
  "round_to n x = of_int (round_half_even (x * 10 ^ n)) / 10 ^ n"

fun py_round :: "json \<Rightarrow> nat \<Rightarrow> exn + json" where
  "py_round (JNum x) n = Inr (JNum (round_to n x))"
| "py_round (JInt k) n = Inr (JInt k)"
| "py_round (JBool b) n = Inr (JInt (int_val (JBool b)))"
| "py_round _ n = Inl TypeError"

definition true_div :: "int \<Rightarrow> int \<Rightarrow> exn + rat" where
  \<comment> \<open>\<open>a / b\<close> on integers\<close>
  "true_div a b = (if b = 0 then Inl ZeroDivisionError else Inr (of_int a / of_int b))"

fun truthy :: "json \<Rightarrow> bool" where
  "truthy JNull = False"
| "truthy (JBool b) = b"
| "truthy (JInt n) = (n \<noteq> 0)"
| "truthy (JNum x) = (x \<noteq> 0)"
| "truthy (JStr s) = (s \<noteq> [])"
| "truthy (JArr xs) = (xs \<noteq> [])"
| "truthy (JObj kvs) = (kvs \<noteq> [])"

definition dget :: "(string \<times> json) list \<Rightarrow> string \<Rightarrow> json \<Rightarrow> json" where
  \<comment> \<open>\<open>d.get(k, default)\<close> on a dictionary\<close>
  "dget d k dflt = (case map_of d k of None \<Rightarrow> dflt | Some v \<Rightarrow> v)"

section \<open>Cost estimation\<close>

definition pricing :: "(string \<times> rat \<times> rat) list" where
  \<comment> \<open>model key, price of a million prompt tokens, of a million response tokens;
      in the order of the source's dictionary\<close>
  "pricing =
   [ (''gpt-4o'', 250 / 100, 10),
     (''gpt-4o-mini'', 15 / 100, 60 / 100),
     (''gpt-4-turbo'', 10, 30),
     (''gpt-4'', 30, 60),
     (''gpt-3.5-turbo'', 50 / 100, 150 / 100),
     (''gemini-1.5-pro'', 350 / 100, 1050 / 100),
     (''gemini-1.5-flash'', 75 / 1000, 30 / 100),
     (''gemini-pro'', 50 / 100, 150 / 100) ]"

definition calculate_estimated_cost :: "json \<Rightarrow> json \<Rightarrow> json \<Rightarrow> exn + rat" where
  "calculate_estimated_cost model prompt_tokens response_tokens =
     (if \<not> is_int prompt_tokens \<or> \<not> is_int response_tokens then Inr 0
      else case model of
        JStr name \<Rightarrow>
          (let model_lower = lower name
           in case find (\<lambda>(model_key, prices). sublist model_key model_lower) pricing of
                None \<Rightarrow> Inr 0
              | Some (model_key, prompt_price, response_price) \<Rightarrow>
                  let prompt_cost = of_int (int_val prompt_tokens) / 1000000 * prompt_price;
                      response_cost = of_int (int_val response_tokens) / 1000000 * response_price
                  in Inr (round_to 6 (prompt_cost + response_cost)))
      | _ \<Rightarrow> Inl AttributeError)"

section \<open>The history directory\<close>

text \<open>
  The history directory is the list of its entries, in the order in which a listing
  yields them. A regular file carries its modification time and what \<open>json.load\<close> makes
  of its text: a document, or nothing when the text is not JSON. The recorder's state is
  the directory and what \<open>pp\<close> has printed. The clock readings, the formatted
  timestamps and the MD5 digest come from outside the modelled code and are inputs.
\<close>

datatype file_data = Malformed | Document json

datatype node = File int file_data | Dir int

type_synonym directory = "(string \<times> node) list"

fun mtime :: "node \<Rightarrow> int" where
  "mtime (File t d) = t"
| "mtime (Dir t) = t"

datatype message = History_saved string | Index_warning exn | History_warning exn

record state =
  files :: directory
  printed :: "message list"

record env =
  history_enabled :: bool
  iso :: string
  formatted :: string
  stamp :: string
  now :: int
  md5_hex :: "string \<Rightarrow> string"

definition read_json :: "directory \<Rightarrow> string \<Rightarrow> exn + json" where
  \<comment> \<open>\<open>open(name, 'r')\<close> and \<open>json.load\<close>\<close>
  "read_json d name =
     (case map_of d name of
        None \<Rightarrow> Inl FileNotFoundError
      | Some (Dir t) \<Rightarrow> Inl IsADirectoryError
      | Some (File t Malformed) \<Rightarrow> Inl JSONDecodeError
      | Some (File t (Document v)) \<Rightarrow> Inr v)"

definition write_json :: "directory \<Rightarrow> string \<Rightarrow> int \<Rightarrow> json \<Rightarrow> exn + directory" where
  \<comment> \<open>\<open>open(name, 'w')\<close> and \<open>json.dump\<close>\<close>
  "write_json d name t v =
     (case map_of d name of
        Some (Dir t') \<Rightarrow> Inl IsADirectoryError
      | _ \<Rightarrow> Inr (AList.update name (File t (Document v)) d))"

section \<open>The index\<close>

definition fresh_index :: "string \<Rightarrow> json" where
  "fresh_index created =
     JObj [(''created_at'', JStr created), (''total_interactions'', JInt 0),
           (''total_tokens_used'', JInt 0), (''total_estimated_cost'', JNum 0),
           (''interactions'', JArr [])]"

fun getpath :: "json \<Rightarrow> string list \<Rightarrow> exn + json" where
  \<comment> \<open>\<open>v[k1][k2]...\<close>\<close>
  "getpath v [] = Inr v"
| "getpath v (k # ks) = bind_exn (getitem v k) (\<lambda>w. getpath w ks)"

definition summary_of :: "json \<Rightarrow> exn + json" where
  "summary_of entry =
     bind_exn (getpath entry [''metadata'', ''session_id'']) (\<lambda>session_id.
     bind_exn (getpath entry [''metadata'', ''timestamp'']) (\<lambda>timestamp.
     bind_exn (getpath entry [''provider_info'', ''provider'']) (\<lambda>provider.
     bind_exn (getpath entry [''provider_info'', ''model'']) (\<lambda>model.
     bind_exn (getitem entry ''tokens'') (\<lambda>tokens.
     bind_exn (get_default tokens ''total_tokens'' (JStr ''N/A'')) (\<lambda>total.
     bind_exn (get_default tokens ''estimated_cost_usd'' (JNum 0)) (\<lambda>cost.
     bind_exn (getpath entry [''files_info'', ''processed_count'']) (\<lambda>processed.
     bind_exn (getpath entry [''content'', ''response'', ''preview'']) (\<lambda>preview.
       Inr (JObj [(''session_id'', session_id), (''timestamp'', timestamp),
                  (''provider'', provider), (''model'', model), (''tokens'', total),
                  (''cost'', cost), (''files_processed'', processed),
                  (''response_preview'', preview)]))))))))))"

fun insert0 :: "json \<Rightarrow> json \<Rightarrow> exn + json" where
  \<comment> \<open>\<open>xs.insert(0, v)\<close>\<close>
  "insert0 (JArr xs) v = Inr (JArr (v # xs))"
| "insert0 _ v = Inl AttributeError"

fun len :: "json \<Rightarrow> exn + json" where
  "len (JArr xs) = Inr (JInt (int (length xs)))"
| "len (JObj kvs) = Inr (JInt (int (length kvs)))"
| "len (JStr s) = Inr (JInt (int (length s)))"
| "len _ = Inl TypeError"

definition add_interaction :: "json \<Rightarrow> json \<Rightarrow> exn + json" where
  \<comment> \<open>the summary is built, put first, and the count set to the new length\<close>
  "add_interaction index entry =
     bind_exn (summary_of entry) (\<lambda>summary.
     bind_exn (getitem index ''interactions'') (\<lambda>interactions.
     bind_exn (insert0 interactions summary) (\<lambda>interactions'.
     bind_exn (setitem index ''interactions'' interactions') (\<lambda>index1.
     bind_exn (len interactions') (\<lambda>n.
       setitem index1 ''total_interactions'' n)))))"

definition add_tokens :: "json \<Rightarrow> json \<Rightarrow> exn + json" where
  "add_tokens index entry =
     bind_exn (getitem entry ''tokens'') (\<lambda>tokens.
     bind_exn (get_default tokens ''total_tokens'' JNull) (\<lambda>total.
       if is_int total then
         bind_exn (getitem index ''total_tokens_used'') (\<lambda>used.
         bind_exn (getpath entry [''tokens'', ''total_tokens'']) (\<lambda>total'.
         bind_exn (py_add used total') (\<lambda>used'.
           setitem index ''total_tokens_used'' used')))
       else Inr index))"

definition add_cost :: "json \<Rightarrow> json \<Rightarrow> exn + json" where
  "add_cost index entry =
     bind_exn (getitem entry ''tokens'') (\<lambda>tokens.
     bind_exn (get_default tokens ''estimated_cost_usd'' JNull) (\<lambda>cost.
       if is_number cost then
         bind_exn (getitem index ''total_estimated_cost'') (\<lambda>total.
         bind_exn (getpath entry [''tokens'', ''estimated_cost_usd'']) (\<lambda>cost'.
         bind_exn (py_add total cost') (\<lambda>total'.
         bind_exn (setitem index ''total_estimated_cost'' total') (\<lambda>index1.
         bind_exn (getitem index1 ''total_estimated_cost'') (\<lambda>total''.
         bind_exn (py_round total'' 6) (\<lambda>rounded.
           setitem index1 ''total_estimated_cost'' rounded))))))
       else Inr index))"

definition load_index :: "env \<Rightarrow> directory \<Rightarrow> exn + json" where
  "load_index e d =
     (if map_of d ''index.json'' \<noteq> None then read_json d ''index.json''
      else Inr (fresh_index (iso e)))"

definition updated_index :: "json \<Rightarrow> json \<Rightarrow> exn + json" where
  \<comment> \<open>what the loaded index becomes: summary first, count, totals\<close>
  "updated_index index entry =
     bind_exn (add_interaction index entry) (\<lambda>index1.
     bind_exn (add_tokens index1 entry) (\<lambda>index2.
       add_cost index2 entry))"

definition index_body :: "env \<Rightarrow> directory \<Rightarrow> json \<Rightarrow> exn + directory" where
  \<comment> \<open>the body of the \<open>try\<close> of \<open>update_history_index\<close>\<close>
  "index_body e d entry =
     bind_exn (load_index e d) (\<lambda>index.
     bind_exn (updated_index index entry) (\<lambda>index'.
       write_json d ''index.json'' (now e) index'))"

definition update_history_index :: "env \<Rightarrow> state \<Rightarrow> json \<Rightarrow> state" where
  "update_history_index e st entry =
     (case index_body e (files st) entry of
        Inl err \<Rightarrow> st\<lparr>printed := printed st @ [Index_warning err]\<rparr>
      | Inr d \<Rightarrow> st\<lparr>files := d\<rparr>)"

section \<open>Pruning\<close>

definition history_name :: "string \<Rightarrow> bool" where
  \<comment> \<open>the names that \<open>glob("history_*.json")\<close> yields\<close>
  "history_name n = (prefix ''history_'' n \<and> suffix ''.json'' n \<and> 13 \<le> length n)"

definition glob_history :: "directory \<Rightarrow> (string \<times> node) list" where
  "glob_history d = filter (\<lambda>(n, f). history_name n) d"

definition slice_from :: "'a list \<Rightarrow> int \<Rightarrow> 'a list" where
  \<comment> \<open>\<open>xs[k:]\<close>; a negative \<open>k\<close> counts from the end\<close>
  "slice_from xs k =
     (if k < 0 then drop (nat (max 0 (int (length xs) + k))) xs else drop (nat k) xs)"

fun unlink_each :: "(string \<times> node) list \<Rightarrow> directory \<Rightarrow> directory" where
  \<comment> \<open>the loop over the old files; \<open>unlink\<close> raises on a directory, which ends the loop\<close>
  "unlink_each [] d = d"
| "unlink_each ((n, File t x) # old) d = unlink_each old (filter (\<lambda>(m, f). m \<noteq> n) d)"
| "unlink_each ((n, Dir t) # old) d = d"

definition sorted_newest_first :: "(string \<times> node) list \<Rightarrow> (string \<times> node) list" where
  \<comment> \<open>\<open>sorted(..., key=st_mtime, reverse=True)\<close>, which keeps the order of equal keys\<close>
  "sorted_newest_first fs = sort_key (\<lambda>(n, f). - mtime f) fs"

definition cleanup_old_history :: "directory \<Rightarrow> int \<Rightarrow> directory" where
  "cleanup_old_history d keep_last =
     (let history_files = sorted_newest_first (glob_history d)
      in if int (length history_files) > keep_last
         then unlink_each (slice_from history_files keep_last) d
         else d)"


section \<open>Recording an interaction\<close>

function split_ws :: "string \<Rightarrow> string list" where
  \<comment> \<open>\<open>s.split()\<close>: the maximal runs of characters that are not whitespace\<close>
  "split_ws s =
     (let t = dropWhile is_space s
      in if t = [] then []
         else takeWhile (\<lambda>c. \<not> is_space c) t # split_ws (dropWhile (\<lambda>c. \<not> is_space c) t))"
  by pat_completeness auto
termination
proof (relation "measure length")
  show "wf (measure length)" by simp
next
  fix s t :: string
  assume t: "t = dropWhile is_space s" and ne: "t \<noteq> []"
  have "length (dropWhile (\<lambda>c. \<not> is_space c) t) < length t"
  proof (cases t)
    case Nil
    with ne show ?thesis by simp
  next
    case (Cons x xs)
    have "\<not> is_space x"
      using t Cons by (metis dropWhile_eq_Cons_conv)
    then have "length (dropWhile (\<lambda>c. \<not> is_space c) t) \<le> length xs"
      using Cons by (simp add: length_dropWhile_le)
    then show ?thesis using Cons by simp
  qed
  moreover have "length t \<le> length s"
    using t by (simp add: length_dropWhile_le)
  ultimately show "(dropWhile (\<lambda>c. \<not> is_space c) t, s) \<in> measure length"
    by simp
qed

declare split_ws.simps [simp del]

definition hasattr :: "(string \<times> json) list \<Rightarrow> string \<Rightarrow> bool" where
  "hasattr a k = (map_of a k \<noteq> None)"

definition getattr :: "(string \<times> json) list \<Rightarrow> string \<Rightarrow> exn + json" where
  "getattr a k = (case map_of a k of None \<Rightarrow> Inl AttributeError | Some v \<Rightarrow> Inr v)"

definition attr_or :: "(string \<times> json) list \<Rightarrow> string \<Rightarrow> json \<Rightarrow> json" where
  \<comment> \<open>\<open>args.k if hasattr(args, k) else dflt\<close>\<close>
  "attr_or a k dflt = (case map_of a k of None \<Rightarrow> dflt | Some v \<Rightarrow> v)"

definition total_tokens :: "(string \<times> json) list \<Rightarrow> exn + json" where
  "total_tokens result =
     (if is_int (dget result ''prompt_tokens'' JNull) \<and> is_int (dget result ''response_tokens'' JNull)
      then py_add (dget result ''prompt_tokens'' (JInt 0)) (dget result ''response_tokens'' (JInt 0))
      else Inr (JStr ''N/A''))"

definition tokens_of :: "(string \<times> json) list \<Rightarrow> exn + json" where
  "tokens_of result =
     bind_exn (total_tokens result) (\<lambda>total.
     bind_exn (calculate_estimated_cost (dget result ''model'' (JStr []))
                 (dget result ''prompt_tokens'' (JInt 0))
                 (dget result ''response_tokens'' (JInt 0))) (\<lambda>cost.
       Inr (JObj [(''prompt_tokens'', dget result ''prompt_tokens'' (JStr ''N/A'')),
                  (''response_tokens'', dget result ''response_tokens'' (JStr ''N/A'')),
                  (''total_tokens'', total),
                  (''estimated_cost_usd'', JNum cost)])))"

definition path_format :: "(string \<times> json) list \<Rightarrow> exn + json" where
  "path_format args =
     (if hasattr args ''relative_paths'' then
        bind_exn (getattr args ''relative_paths'') (\<lambda>rel.
          if truthy rel then Inr (JStr ''relative'')
          else bind_exn (getattr args ''filename_only'') (\<lambda>only.
                 if truthy only then Inr (JStr ''name_only'') else Inr (JStr ''full'')))
      else Inr (JStr ''full''))"

definition configuration_of :: "(string \<times> json) list \<Rightarrow> exn + json" where
  "configuration_of args =
     bind_exn (path_format args) (\<lambda>fmt.
       Inr (JObj [(''specialist'', attr_or args ''specialist'' JNull),
                  (''language'', attr_or args ''lang'' (JStr ''en'')),
                  (''max_tokens'', attr_or args ''max_tokens'' JNull),
                  (''max_tokens_doc'', attr_or args ''max_tokens_doc'' JNull),
                  (''max_completion_tokens'',
                     if truthy (attr_or args ''unlimited'' (JBool False)) then JInt 0
                     else attr_or args ''max_completion_tokens'' (JInt 16000)),
                  (''path_format'', fmt)]))"

definition preview_of :: "string \<Rightarrow> string" where
  "preview_of r = (if length r > 500 then take 500 r @ ''...'' else r)"

definition statistics_of :: "string \<Rightarrow> string \<Rightarrow> exn + json" where
  \<comment> \<open>the \<open>statistics\<close> block, from the sanitized prompt and response\<close>
  "statistics_of sanitized_prompt sanitized_response =
     bind_exn (if sanitized_prompt \<noteq> []
               then bind_exn (true_div (int (length sanitized_response))
                                       (int (length sanitized_prompt)))
                             (\<lambda>q. Inr (JNum (round_to 2 q)))
               else Inr (JInt 0)) (\<lambda>ratio.
     bind_exn (true_div (int (length sanitized_response))
                        (max (int (length (split_ws sanitized_response))) 1)) (\<lambda>q.
       Inr (JObj [(''prompt_to_response_ratio'', ratio),
                  (''avg_response_word_length'', JNum (round_to 2 q)),
                  (''response_lines'',
                     JInt (int (count_list sanitized_response (CHR 0x0A)) + 1))])))"

definition history_entry ::
  "env \<Rightarrow> string \<Rightarrow> string \<Rightarrow> (string \<times> json) list \<Rightarrow> (string \<times> json) list \<Rightarrow>
   (string \<times> json) list \<Rightarrow> exn + json" where
  "history_entry e full_prompt response_text result files_info args =
     (let sanitized_prompt = sanitize_sensitive_data full_prompt;
          sanitized_response = sanitize_sensitive_data response_text;
          prompt_hash = take 8 (md5_hex e full_prompt)
      in
      bind_exn (tokens_of result) (\<lambda>tokens.
      bind_exn (configuration_of args) (\<lambda>configuration.
      bind_exn (statistics_of sanitized_prompt sanitized_response) (\<lambda>statistics.
        Inr (JObj
          [(''metadata'', JObj
              [(''timestamp'', JStr (iso e)),
               (''timestamp_formatted'', JStr (formatted e)),
               (''prompt_hash'', JStr prompt_hash),
               (''session_id'', JStr (stamp e @ ''_'' @ prompt_hash))]),
           (''provider_info'', JObj
              [(''provider'', dget result ''provider'' (JStr ''unknown'')),
               (''model'', dget result ''model'' (JStr ''unknown'')),
               (''api_version'', dget result ''api_version'' (JStr ''N/A''))]),
           (''tokens'', tokens),
           (''files_info'', JObj
              [(''processed_count'', dget files_info ''processed'' (JInt 0)),
               (''error_count'', dget files_info ''errors'' (JInt 0)),
               (''skipped_count'', dget files_info ''skipped'' (JInt 0)),
               (''total_words'', dget files_info ''words'' (JInt 0)),
               (''total_estimated_tokens'', dget files_info ''tokens'' (JInt 0)),
               (''file_list'', dget files_info ''file_list'' (JArr []))]),
           (''configuration'', configuration),
           (''content'', JObj
              [(''prompt'', JObj
                  [(''full'', JStr sanitized_prompt),
                   (''length_chars'', JInt (int (length sanitized_prompt))),
                   (''length_words'', JInt (int (length (split_ws sanitized_prompt))))]),
               (''response'', JObj
                  [(''full'', JStr sanitized_response),
                   (''length_chars'', JInt (int (length sanitized_response))),
                   (''length_words'', JInt (int (length (split_ws sanitized_response)))),
                   (''preview'', JStr (preview_of sanitized_response))])]),
           (''statistics'', statistics)])))))"

definition history_file :: "env \<Rightarrow> string \<Rightarrow> string" where
  "history_file e full_prompt =
     ''history_'' @ stamp e @ ''_'' @ take 8 (md5_hex e full_prompt) @ ''.json''"

definition save_to_history ::
  "env \<Rightarrow> state \<Rightarrow> string \<Rightarrow> string \<Rightarrow> (string \<times> json) list \<Rightarrow> (string \<times> json) list \<Rightarrow>
   (string \<times> json) list \<Rightarrow> state" where
  "save_to_history e st full_prompt response_text result files_info args =
     (if \<not> history_enabled e then st
      else
        case bind_exn (history_entry e full_prompt response_text result files_info args)
               (\<lambda>entry. bind_exn (write_json (files st) (history_file e full_prompt) (now e) entry)
                 (\<lambda>d. Inr (d, entry))) of
          Inl err \<Rightarrow> st\<lparr>printed := printed st @ [History_warning err]\<rparr>
        | Inr (d, entry) \<Rightarrow>
            let st1 = update_history_index e (st\<lparr>files := d\<rparr>) entry
            in st1\<lparr>printed := printed st1 @ [History_saved (history_file e full_prompt)]\<rparr>)"


section \<open>Sequences of recordings\<close>

text \<open>
  A call of \<open>save_to_history\<close> with its arguments and the readings of its environment;
  recording a list of calls runs them one after the other, each on the state the one
  before has left.
\<close>

record call =
  c_env :: env
  c_prompt :: string
  c_response :: string
  c_result :: "(string \<times> json) list"
  c_files_info :: "(string \<times> json) list"
  c_args :: "(string \<times> json) list"

definition record_call :: "state \<Rightarrow> call \<Rightarrow> state" where
  "record_call st c =
     save_to_history (c_env c) st (c_prompt c) (c_response c) (c_result c) (c_files_info c)
       (c_args c)"

definition record_all :: "state \<Rightarrow> call list \<Rightarrow> state" where
  "record_all st cs = foldl record_call st cs"

definition empty_store :: state where
  "empty_store = \<lparr>files = [], printed = []\<rparr>"

definition call_file :: "call \<Rightarrow> string" where
  "call_file c = history_file (c_env c) (c_prompt c)"

definition builds_entry :: "call \<Rightarrow> bool" where
  \<comment> \<open>history is enabled and the entry is built without an exception\<close>
  "builds_entry c =
     (history_enabled (c_env c) \<and>
      (case history_entry (c_env c) (c_prompt c) (c_response c) (c_result c) (c_files_info c)
              (c_args c) of
         Inl err \<Rightarrow> False | Inr entry \<Rightarrow> True))"

definition nonneg_counts :: "(string \<times> json) list \<Rightarrow> bool" where
  \<comment> \<open>the token counts of the result that are integers are not negative\<close>
  "nonneg_counts result =
     (0 \<le> int_val (dget result ''prompt_tokens'' (JInt 0)) \<and>
      0 \<le> int_val (dget result ''response_tokens'' (JInt 0)))"

definition current_index :: "state \<Rightarrow> json" where
  \<comment> \<open>the index document of the store; the fresh index when there is no readable one\<close>
  "current_index st =
     (case read_json (files st) ''index.json'' of Inl err \<Rightarrow> fresh_index [] | Inr idx \<Rightarrow> idx)"

definition field :: "json \<Rightarrow> string \<Rightarrow> json" where
  "field v k = (case getitem v k of Inl err \<Rightarrow> JNull | Inr w \<Rightarrow> w)"

definition tokens_used :: "json \<Rightarrow> rat" where
  "tokens_used idx = num_val (field idx ''total_tokens_used'')"

definition total_cost :: "json \<Rightarrow> rat" where
  "total_cost idx = num_val (field idx ''total_estimated_cost'')"

fun is_file :: "string \<times> node \<Rightarrow> bool" where
  "is_file (n, File t x) = True"
| "is_file (n, Dir t) = False"

text \<open>
  The index as the recorder writes it after \<open>n\<close> recordings, and the stores that
  recording reaches: regular files only, one entry for each name, and such an index (the
  fresh one when there is no index file yet).
\<close>

definition good_index :: "nat \<Rightarrow> json \<Rightarrow> bool" where
  "good_index n idx =
     (\<exists>kvs xs u c. idx = JObj kvs \<and> map_of kvs ''interactions'' = Some (JArr xs) \<and> length xs = n
        \<and> map_of kvs ''total_interactions'' = Some (JInt (int n))
        \<and> map_of kvs ''total_tokens_used'' = Some (JInt u)
        \<and> map_of kvs ''total_estimated_cost'' = Some (JNum c) \<and> round_to 6 c = c)"

definition store_inv :: "nat \<Rightarrow> state \<Rightarrow> bool" where
  "store_inv n st =
     (list_all is_file (files st) \<and> distinct (map fst (files st)) \<and>
      (\<forall>e. \<exists>idx. load_index e (files st) = Inr idx \<and> good_index n idx))"

section \<open>Example inputs\<close>

definition example_env :: env where
  "example_env =
     \<lparr> history_enabled = True, iso = ''2024-01-01T00:00:00.000000'',
       formatted = ''2024-01-01 00:00:00'', stamp = ''20240101_000000'', now = 1704067200,
       md5_hex = (\<lambda>text. ''5d41402abc4b2a76b9719d911017c592'') \<rparr>"

definition example_entry :: json where
  "example_entry =
     JObj [(''metadata'', JObj [(''timestamp'', JStr ''2024-01-01T00:00:00.000000''),
                                (''session_id'', JStr ''20240101_000000_5d41402a'')]),
           (''provider_info'', JObj [(''provider'', JStr ''openrouter''),
                                     (''model'', JStr ''gpt-4o'')]),
           (''tokens'', JObj [(''total_tokens'', JInt 150),
                              (''estimated_cost_usd'', JNum (75 / 100000))]),
           (''files_info'', JObj [(''processed_count'', JInt 2)]),
           (''content'', JObj [(''response'', JObj [(''preview'', JStr ''hello'')])])]"

definition example_directory :: directory where
  "example_directory =
     [(''history_20240101_000000_aaaaaaaa.json'', File 10 (Document JNull)),
      (''index.json'', File 30 Malformed),
      (''history_20240101_000002_cccccccc.json'', File 30 (Document JNull)),
      (''notes.txt'', File 5 Malformed),
      (''history_20240101_000001_bbbbbbbb.json'', File 20 (Document JNull))]"


definition two_digits :: "nat \<Rightarrow> string" where
  "two_digits n = [char_of (48 + n div 10), char_of (48 + n mod 10)]"

definition stamp_of :: "nat \<Rightarrow> string" where
  \<comment> \<open>the timestamp \<open>i\<close> seconds after midnight, for \<open>i\<close> below an hour\<close>
  "stamp_of i = ''20240101_00'' @ two_digits (i div 60) @ two_digits (i mod 60)"

definition example_call :: "nat \<Rightarrow> call" where
  "example_call i =
     \<lparr> c_env = example_env\<lparr>stamp := stamp_of i, now := 1704067200 + int i\<rparr>,
       c_prompt = ''hello'', c_response = ''world'',
       c_result = [(''provider'', JStr ''openrouter''), (''model'', JStr ''gpt-4o''),
                   (''prompt_tokens'', JInt 100), (''response_tokens'', JInt 50)],
       c_files_info = [(''processed'', JInt 2)], c_args = [] \<rparr>"


section \<open>Evaluating the character tests\<close>

text \<open>
  The character tests are stated on code points. For a character given by its bits they
  reduce to arithmetic on numerals, which is how concrete texts are evaluated below.
\<close>

lemma code_Char: "code (Char b0 b1 b2 b3 b4 b5 b6 b7) = (if b0 then 1 else 0) + (if b1 then 2 else 0) + (if b2 then 4 else 0) + (if b3 then 8 else 0) + (if b4 then 16 else 0) + (if b5 then 32 else 0) + (if b6 then 64 else 0) + (if b7 then 128 else 0)"
  by (simp add: code_def)

lemma lower_char_Char: "lower_char (Char b0 b1 b2 b3 b4 b5 b6 b7) =
  (let n = code (Char b0 b1 b2 b3 b4 b5 b6 b7) in
     if (65 \<le> n \<and> n \<le> 90) \<or> (192 \<le> n \<and> n \<le> 214) \<or> (216 \<le> n \<and> n \<le> 222)
     then Char b0 b1 b2 b3 b4 True b6 b7 else Char b0 b1 b2 b3 b4 b5 b6 b7)"
  by (cases b0; cases b1; cases b2; cases b3; cases b4; cases b5; cases b6; cases b7; simp add: lower_char_def code_def char_of_eq_iff)

lemma upper_char_Char: "upper_char (Char b0 b1 b2 b3 b4 b5 b6 b7) =
  (let n = code (Char b0 b1 b2 b3 b4 b5 b6 b7) in
     if (97 \<le> n \<and> n \<le> 122) \<or> (224 \<le> n \<and> n \<le> 246) \<or> (248 \<le> n \<and> n \<le> 254)
     then Char b0 b1 b2 b3 b4 False b6 b7 else Char b0 b1 b2 b3 b4 b5 b6 b7)"
  by (cases b0; cases b1; cases b2; cases b3; cases b4; cases b5; cases b6; cases b7; simp add: upper_char_def code_def char_of_eq_iff)




section \<open>Redaction: texts without a secret shape, and the placeholder\<close>

lemma re_sub_no_match: "\<not> re_search ic r s \<Longrightarrow> re_sub ic r rep s = s"
proof (induction s)
  case Nil
  then have "match_at ic r [] = None" by (simp split: option.splits)
  then show ?case by (subst re_sub.simps) simp
next
  case (Cons x xs)
  then have "match_at ic r (x # xs) = None" and "\<not> re_search ic r xs"
    by (simp_all split: option.splits)
  with Cons.IH show ?case by (subst re_sub.simps) simp
qed



lemma re_sub_match_repl:
  assumes "\<And>c. sublist P (expand rep c)"
  shows "re_search ic r s \<Longrightarrow> sublist P (re_sub ic r rep s)"
proof (induction s)
  case Nil
  then obtain c s' where "match_at ic r [] = Some (c, s')"
    by (cases "match_at ic r []") auto
  then show ?case using assms[of c] by (subst re_sub.simps) (simp add: sublist_append)
next
  case (Cons x xs)
  show ?case
  proof (cases "match_at ic r (x # xs)")
    case None
    with Cons have "sublist P (re_sub ic r rep xs)" by simp
    with None show ?thesis by (subst re_sub.simps) (simp add: sublist_Cons_right)
  next
    case (Some m)
    then show ?thesis using assms[of "fst m"]
      by (subst re_sub.simps) (cases m; simp add: sublist_append)
  qed
qed

lemma re_sub_keeps_repl:
  assumes "\<And>c. sublist P (expand rep c)" and "sublist P s"
  shows "sublist P (re_sub ic r rep s)"
proof (cases "re_search ic r s")
  case True
  then show ?thesis using assms(1) by (rule re_sub_match_repl[rotated])
next
  case False
  then show ?thesis using assms(2) by (simp add: re_sub_no_match)
qed








section \<open>The index after an update\<close>

lemma bind_exn_Inr: "bind_exn m f = Inr y \<longleftrightarrow> (\<exists>x. m = Inr x \<and> f x = Inr y)"
  by (cases m) (simp_all add: bind_exn_def)

lemma bind_exn_simps: "bind_exn (Inr x) f = f x" "bind_exn (Inl e) f = Inl e"
  by (simp_all add: bind_exn_def)

lemma getitem_setitem_same: "setitem j k v = Inr j' \<Longrightarrow> getitem j' k = Inr v"
  by (cases j) (auto simp: update_conv')

lemma getitem_setitem_other: "setitem j k v = Inr j' \<Longrightarrow> k' \<noteq> k \<Longrightarrow> getitem j' k' = getitem j k'"
  by (cases j) (auto simp: update_conv')

lemma insert0_Inr: "insert0 j v = Inr j' \<longleftrightarrow> (\<exists>xs. j = JArr xs \<and> j' = JArr (v # xs))"
  by (cases j) auto

lemma add_interaction_Inr:
  assumes "add_interaction index entry = Inr i'"
  shows "\<exists>smry xs. summary_of entry = Inr smry \<and> getitem index ''interactions'' = Inr (JArr xs)
          \<and> getitem i' ''interactions'' = Inr (JArr (smry # xs))
          \<and> getitem i' ''total_interactions'' = Inr (JInt (int (length (smry # xs))))"
proof -
  from assms obtain smry inter inter' i1 n where
    s: "summary_of entry = Inr smry" and g: "getitem index ''interactions'' = Inr inter"
    and i: "insert0 inter smry = Inr inter'" and s1: "setitem index ''interactions'' inter' = Inr i1"
    and l: "len inter' = Inr n" and s2: "setitem i1 ''total_interactions'' n = Inr i'"
    unfolding add_interaction_def bind_exn_Inr by blast
  from i obtain xs where xs: "inter = JArr xs" "inter' = JArr (smry # xs)"
    by (auto simp: insert0_Inr)
  have n: "n = JInt (int (length (smry # xs)))" using l xs by simp
  have "getitem i' ''interactions'' = getitem i1 ''interactions''"
    using s2 by (rule getitem_setitem_other) simp
  also have "\<dots> = Inr inter'" using s1 by (rule getitem_setitem_same)
  finally have a: "getitem i' ''interactions'' = Inr (JArr (smry # xs))" using xs by simp
  have b: "getitem i' ''total_interactions'' = Inr n" using s2 by (rule getitem_setitem_same)
  show ?thesis using s g xs a b n by blast
qed

lemma add_interaction_other:
  assumes "add_interaction index entry = Inr i'" and "k \<noteq> ''interactions''" and "k \<noteq> ''total_interactions''"
  shows "getitem i' k = getitem index k"
proof -
  from assms(1) obtain inter' i1 n where
    s1: "setitem index ''interactions'' inter' = Inr i1"
    and s2: "setitem i1 ''total_interactions'' n = Inr i'"
    unfolding add_interaction_def bind_exn_Inr by blast
  show ?thesis
    using getitem_setitem_other[OF s2 assms(3)] getitem_setitem_other[OF s1 assms(2)] by simp
qed

lemma add_tokens_other:
  assumes "add_tokens index entry = Inr i'" and "k \<noteq> ''total_tokens_used''"
  shows "getitem i' k = getitem index k"
  using assms
  by (auto simp: add_tokens_def bind_exn_Inr split: if_splits dest: getitem_setitem_other)

lemma add_cost_other:
  assumes "add_cost index entry = Inr i'" and k: "k \<noteq> ''total_estimated_cost''"
  shows "getitem i' k = getitem index k"
proof -
  from assms(1) obtain tokens cost where
    body: "(if is_number cost then
         bind_exn (getitem index ''total_estimated_cost'') (\<lambda>total.
         bind_exn (getpath entry [''tokens'', ''estimated_cost_usd'']) (\<lambda>cost'.
         bind_exn (py_add total cost') (\<lambda>total'.
         bind_exn (setitem index ''total_estimated_cost'' total') (\<lambda>index1.
         bind_exn (getitem index1 ''total_estimated_cost'') (\<lambda>total''.
         bind_exn (py_round total'' 6) (\<lambda>rounded.
           setitem index1 ''total_estimated_cost'' rounded))))))
       else Inr index) = Inr i'"
    unfolding add_cost_def bind_exn_Inr by blast
  show ?thesis
  proof (cases "is_number cost")
    case False
    with body show ?thesis by simp
  next
    case True
    with body obtain total' index1 rounded where
      s1: "setitem index ''total_estimated_cost'' total' = Inr index1"
      and s2: "setitem index1 ''total_estimated_cost'' rounded = Inr i'"
      by (auto simp: bind_exn_Inr)
    show ?thesis
      using getitem_setitem_other[OF s2 k] getitem_setitem_other[OF s1 k] by simp
  qed
qed

lemma read_write_json: "write_json d name t v = Inr d' \<Longrightarrow> read_json d' name = Inr v"
  by (auto simp: write_json_def read_json_def update_conv' split: option.splits node.splits)

lemma updated_index_first:
  assumes "updated_index index entry = Inr idx"
  shows "\<exists>smry xs. summary_of entry = Inr smry \<and> getitem index ''interactions'' = Inr (JArr xs)
          \<and> getitem idx ''interactions'' = Inr (JArr (smry # xs))
          \<and> getitem idx ''total_interactions'' = Inr (JInt (int (length (smry # xs))))"
proof -
  from assms obtain i1 i2 where a: "add_interaction index entry = Inr i1"
    and b: "add_tokens i1 entry = Inr i2" and c: "add_cost i2 entry = Inr idx"
    unfolding updated_index_def bind_exn_Inr by blast
  have "getitem idx k = getitem i1 k" if "k \<noteq> ''total_tokens_used''" "k \<noteq> ''total_estimated_cost''" for k
    using add_cost_other[OF c that(2)] add_tokens_other[OF b that(1)] by simp
  then have "getitem idx ''interactions'' = getitem i1 ''interactions''"
    and "getitem idx ''total_interactions'' = getitem i1 ''total_interactions''"
    by simp_all
  then show ?thesis using add_interaction_Inr[OF a] by simp
qed

lemma index_body_first:
  assumes "index_body e d entry = Inr d'"
  shows "\<exists>idx smry older. read_json d' ''index.json'' = Inr idx \<and> summary_of entry = Inr smry
          \<and> getitem idx ''interactions'' = Inr (JArr (smry # older))
          \<and> getitem idx ''total_interactions'' = Inr (JInt (int (length (smry # older))))"
proof -
  from assms obtain index idx where "updated_index index entry = Inr idx"
    and w: "write_json d ''index.json'' (now e) idx = Inr d'"
    unfolding index_body_def bind_exn_Inr by blast
  then show ?thesis using updated_index_first read_write_json[OF w] by blast
qed

section \<open>Rounding and the estimated cost\<close>

lemma round_half_even_of_int: "round_half_even (of_int k) = k"
  by (simp add: round_half_even_def)

lemma round_half_even_bounds: "\<lfloor>x\<rfloor> \<le> round_half_even x \<and> round_half_even x \<le> \<lfloor>x\<rfloor> + 1"
  by (simp add: round_half_even_def Let_def)

lemma round_half_even_mono:
  assumes "x \<le> y"
  shows "round_half_even x \<le> round_half_even y"
proof (cases "\<lfloor>x\<rfloor> < \<lfloor>y\<rfloor>")
  case True
  then show ?thesis
    using round_half_even_bounds[of x] round_half_even_bounds[of y] by linarith
next
  case False
  then have eq: "\<lfloor>x\<rfloor> = \<lfloor>y\<rfloor>" using assms floor_mono[of x y] by linarith
  then have "x - of_int \<lfloor>x\<rfloor> \<le> y - of_int \<lfloor>y\<rfloor>" using assms by simp
  then show ?thesis using eq by (auto simp: round_half_even_def Let_def)
qed

lemma round_to_mono: "x \<le> y \<Longrightarrow> round_to n x \<le> round_to n y"
  unfolding round_to_def
  by (intro divide_right_mono) (auto intro!: round_half_even_mono mult_right_mono)

lemma round_to_zero: "round_to n 0 = 0"
  by (simp add: round_to_def round_half_even_def)

lemma round_to_nonneg: "0 \<le> x \<Longrightarrow> 0 \<le> round_to n x"
  using round_to_mono[of 0 x n] by (simp add: round_to_zero)

lemma round_to_idem: "round_to n (round_to n x) = round_to n x"
proof -
  have "round_to n x * 10 ^ n = of_int (round_half_even (x * 10 ^ n))"
    by (simp add: round_to_def)
  then show ?thesis
    unfolding round_to_def[of n "round_to n x"] by (simp add: round_half_even_of_int round_to_def)
qed

lemma pricing_nonneg: "list_all (\<lambda>(k, p, r). 0 \<le> p \<and> 0 \<le> r) pricing"
  by (simp add: pricing_def)

lemma cost_cases:
  assumes "calculate_estimated_cost m pt rt = Inr cost"
  shows "cost = 0 \<or>
         (\<exists>k p r. (k, p, r) \<in> set pricing \<and>
            cost = round_to 6 (of_int (int_val pt) / 1000000 * p + of_int (int_val rt) / 1000000 * r))"
proof (cases "\<not> is_int pt \<or> \<not> is_int rt")
  case True
  then show ?thesis using assms by (simp add: calculate_estimated_cost_def)
next
  case ints: False
  show ?thesis
  proof (cases m)
    case (JStr name)
    show ?thesis
    proof (cases "find (\<lambda>(model_key, prices). sublist model_key (lower name)) pricing")
      case None
      then show ?thesis using assms ints JStr by (simp add: calculate_estimated_cost_def)
    next
      case (Some kpr)
      obtain k p r where kpr: "kpr = (k, p, r)" by (cases kpr)
      have "(k, p, r) \<in> set pricing"
        using Some kpr by (auto simp: find_Some_iff in_set_conv_nth)
      moreover have "cost = round_to 6 (of_int (int_val pt) / 1000000 * p + of_int (int_val rt) / 1000000 * r)"
        using assms ints JStr Some kpr by (simp add: calculate_estimated_cost_def)
      ultimately show ?thesis by blast
    qed
  qed (use assms ints in \<open>simp_all add: calculate_estimated_cost_def\<close>)
qed

lemma cost_nonneg:
  assumes "calculate_estimated_cost m pt rt = Inr cost" and "0 \<le> int_val pt" and "0 \<le> int_val rt"
  shows "0 \<le> cost"
proof -
  from cost_cases[OF assms(1)] show ?thesis
  proof
    assume "cost = 0" then show ?thesis by simp
  next
    assume "\<exists>k p r. (k, p, r) \<in> set pricing \<and>
            cost = round_to 6 (of_int (int_val pt) / 1000000 * p + of_int (int_val rt) / 1000000 * r)"
    then obtain k p r where in_p: "(k, p, r) \<in> set pricing"
      and c: "cost = round_to 6 (of_int (int_val pt) / 1000000 * p + of_int (int_val rt) / 1000000 * r)"
      by blast
    have "0 \<le> p" "0 \<le> r" using in_p pricing_nonneg by (auto simp: list_all_iff)
    then have "0 \<le> of_int (int_val pt) / 1000000 * p + of_int (int_val rt) / 1000000 * r"
      using assms(2,3) by simp
    then show ?thesis unfolding c by (rule round_to_nonneg)
  qed
qed

lemma cost_rounded:
  assumes "calculate_estimated_cost m pt rt = Inr cost"
  shows "round_to 6 cost = cost"
  using cost_cases[OF assms] by (auto simp: round_to_idem round_to_zero)

lemma dget_present: "is_int (dget result k JNull) \<Longrightarrow> dget result k d = dget result k JNull"
  by (auto simp: dget_def split: option.splits)

lemma total_tokens_cases:
  assumes "total_tokens result = Inr tot"
  shows "tot = JStr ''N/A'' \<or>
         tot = JInt (int_val (dget result ''prompt_tokens'' (JInt 0)) + int_val (dget result ''response_tokens'' (JInt 0)))"
proof (cases "is_int (dget result ''prompt_tokens'' JNull) \<and> is_int (dget result ''response_tokens'' JNull)")
  case True
  then have "is_int (dget result ''prompt_tokens'' (JInt 0))" "is_int (dget result ''response_tokens'' (JInt 0))"
    using dget_present[of result "''prompt_tokens''" "JInt 0"]
      dget_present[of result "''response_tokens''" "JInt 0"] by simp_all
  then show ?thesis using assms True by (simp add: total_tokens_def py_add_def)
next
  case False
  then show ?thesis using assms by (auto simp: total_tokens_def)
qed

section \<open>Recording keeps the index well-formed\<close>

lemma entry_fields:
  assumes "history_entry e p r res fi args = Inr entry"
  shows "\<exists>tot cost smry.
           total_tokens res = Inr tot
         \<and> calculate_estimated_cost (dget res ''model'' (JStr [])) (dget res ''prompt_tokens'' (JInt 0))
               (dget res ''response_tokens'' (JInt 0)) = Inr cost
         \<and> getitem entry ''tokens'' =
               Inr (JObj [(''prompt_tokens'', dget res ''prompt_tokens'' (JStr ''N/A'')),
                          (''response_tokens'', dget res ''response_tokens'' (JStr ''N/A'')),
                          (''total_tokens'', tot), (''estimated_cost_usd'', JNum cost)])
         \<and> summary_of entry = Inr smry"
proof -
  from assms obtain tokens conf stats where
    t: "tokens_of res = Inr tokens" and
    en: "entry = JObj
          [(''metadata'', JObj
              [(''timestamp'', JStr (iso e)),
               (''timestamp_formatted'', JStr (formatted e)),
               (''prompt_hash'', JStr (take 8 (md5_hex e p))),
               (''session_id'', JStr (stamp e @ ''_'' @ take 8 (md5_hex e p)))]),
           (''provider_info'', JObj
              [(''provider'', dget res ''provider'' (JStr ''unknown'')),
               (''model'', dget res ''model'' (JStr ''unknown'')),
               (''api_version'', dget res ''api_version'' (JStr ''N/A''))]),
           (''tokens'', tokens),
           (''files_info'', JObj
              [(''processed_count'', dget fi ''processed'' (JInt 0)),
               (''error_count'', dget fi ''errors'' (JInt 0)),
               (''skipped_count'', dget fi ''skipped'' (JInt 0)),
               (''total_words'', dget fi ''words'' (JInt 0)),
               (''total_estimated_tokens'', dget fi ''tokens'' (JInt 0)),
               (''file_list'', dget fi ''file_list'' (JArr []))]),
           (''configuration'', conf),
           (''content'', JObj
              [(''prompt'', JObj
                  [(''full'', JStr (sanitize_sensitive_data p)),
                   (''length_chars'', JInt (int (length (sanitize_sensitive_data p)))),
                   (''length_words'', JInt (int (length (split_ws (sanitize_sensitive_data p)))))]),
               (''response'', JObj
                  [(''full'', JStr (sanitize_sensitive_data r)),
                   (''length_chars'', JInt (int (length (sanitize_sensitive_data r)))),
                   (''length_words'', JInt (int (length (split_ws (sanitize_sensitive_data r))))),
                   (''preview'', JStr (preview_of (sanitize_sensitive_data r)))])]),
           (''statistics'', stats)]"
    unfolding history_entry_def Let_def bind_exn_Inr by auto
  from t obtain tot cost where tt: "total_tokens res = Inr tot"
    and cc: "calculate_estimated_cost (dget res ''model'' (JStr [])) (dget res ''prompt_tokens'' (JInt 0))
               (dget res ''response_tokens'' (JInt 0)) = Inr cost"
    and tk: "tokens = JObj [(''prompt_tokens'', dget res ''prompt_tokens'' (JStr ''N/A'')),
                          (''response_tokens'', dget res ''response_tokens'' (JStr ''N/A'')),
                          (''total_tokens'', tot), (''estimated_cost_usd'', JNum cost)]"
    unfolding tokens_of_def bind_exn_Inr by auto
  have g: "getitem entry ''tokens'' = Inr tokens" unfolding en by simp
  have "\<exists>smry. summary_of entry = Inr smry"
    unfolding en tk summary_of_def by (simp add: bind_exn_simps)
  then show ?thesis using tt cc g tk by blast
qed

lemma updated_index_good:
  assumes gi: "good_index n idx"
    and sm: "summary_of entry = Inr smry"
    and tk: "getitem entry ''tokens'' =
               Inr (JObj [(''prompt_tokens'', a), (''response_tokens'', b),
                          (''total_tokens'', tot), (''estimated_cost_usd'', JNum cost)])"
    and tot: "tot = JStr ''N/A'' \<or> tot = JInt t"
  shows "\<exists>idx'. updated_index idx entry = Inr idx' \<and> good_index (Suc n) idx'
           \<and> tokens_used idx' = tokens_used idx + (if tot = JInt t then of_int t else 0)
           \<and> total_cost idx' = round_to 6 (total_cost idx + cost)"
proof -
  from gi obtain kvs xs u c where idx: "idx = JObj kvs"
    and m1: "map_of kvs ''interactions'' = Some (JArr xs)" and len: "length xs = n"
    and m2: "map_of kvs ''total_interactions'' = Some (JInt (int n))"
    and m3: "map_of kvs ''total_tokens_used'' = Some (JInt u)"
    and m4: "map_of kvs ''total_estimated_cost'' = Some (JNum c)" and rc: "round_to 6 c = c"
    unfolding good_index_def by blast
  define kvs1 where "kvs1 = AList.update ''total_interactions'' (JInt (int (Suc n)))
                       (AList.update ''interactions'' (JArr (smry # xs)) kvs)"
  have a1: "add_interaction idx entry = Inr (JObj kvs1)"
    unfolding add_interaction_def idx kvs1_def using sm m1 len
    by (simp add: bind_exn_simps)
  define u' where "u' = (if tot = JInt t then u + t else u)"
  define kvs2 where "kvs2 = (if tot = JInt t then AList.update ''total_tokens_used'' (JInt (u + t)) kvs1 else kvs1)"
  have k1: "map_of kvs1 ''total_tokens_used'' = Some (JInt u)"
    unfolding kvs1_def using m3 by (simp add: update_conv')
  have gp: "getpath entry [''tokens'', ''total_tokens''] = Inr tot"
    using tk by (simp add: bind_exn_simps)
  have a2: "add_tokens (JObj kvs1) entry = Inr (JObj kvs2)"
  proof (cases "tot = JInt t")
    case True
    then show ?thesis
      unfolding add_tokens_def kvs2_def using tk k1 gp
      by (simp add: bind_exn_simps py_add_def)
  next
    case False
    with tot have "tot = JStr ''N/A''" by simp
    then show ?thesis
      unfolding add_tokens_def kvs2_def using tk False
      by (simp add: bind_exn_simps)
  qed
  have k2: "map_of kvs2 ''total_estimated_cost'' = Some (JNum c)"
    unfolding kvs2_def kvs1_def using m4 by (simp add: update_conv')
  define kvs3 where "kvs3 = AList.update ''total_estimated_cost'' (JNum (round_to 6 (c + cost)))
                       (AList.update ''total_estimated_cost'' (JNum (c + cost)) kvs2)"
  have gc: "getpath entry [''tokens'', ''estimated_cost_usd''] = Inr (JNum cost)"
    using tk by (simp add: bind_exn_simps)
  have a3: "add_cost (JObj kvs2) entry = Inr (JObj kvs3)"
    unfolding add_cost_def kvs3_def using tk k2 gc
    by (simp add: bind_exn_simps py_add_def update_conv')
  have upd: "updated_index idx entry = Inr (JObj kvs3)"
    unfolding updated_index_def using a1 a2 a3 by (simp add: bind_exn_simps)
  have g1: "map_of kvs3 ''interactions'' = Some (JArr (smry # xs))"
    unfolding kvs3_def kvs2_def kvs1_def by (simp add: update_conv')
  have g2: "map_of kvs3 ''total_interactions'' = Some (JInt (int (Suc n)))"
    unfolding kvs3_def kvs2_def kvs1_def by (simp add: update_conv')
  have g3: "map_of kvs3 ''total_tokens_used'' = Some (JInt u')"
    unfolding kvs3_def kvs2_def kvs1_def u'_def using m3 by (simp add: update_conv')
  have g4: "map_of kvs3 ''total_estimated_cost'' = Some (JNum (round_to 6 (c + cost)))"
    unfolding kvs3_def by (simp add: update_conv')
  have good: "good_index (Suc n) (JObj kvs3)"
    unfolding good_index_def using g1 g2 g3 g4 len by (simp add: round_to_idem)
  have tu: "tokens_used (JObj kvs3) = tokens_used idx + (if tot = JInt t then of_int t else 0)"
    unfolding tokens_used_def field_def idx using g3 m3 by (simp add: u'_def)
  have tc: "total_cost (JObj kvs3) = round_to 6 (total_cost idx + cost)"
    unfolding total_cost_def field_def idx using g4 m4 by simp
  show ?thesis using upd good tu tc by blast
qed

lemma good_fresh: "good_index 0 (fresh_index created)"
  by (simp add: good_index_def fresh_index_def round_to_zero)

lemma good_index_fields:
  assumes "good_index n idx"
  shows "getitem idx ''total_interactions'' = Inr (JInt (int n))"
    and "\<exists>xs. getitem idx ''interactions'' = Inr (JArr xs) \<and> length xs = n"
    and "round_to 6 (total_cost idx) = total_cost idx"
  using assms by (auto simp: good_index_def total_cost_def field_def)

lemma write_json_files:
  assumes "list_all is_file d"
  shows "write_json d name t v = Inr (AList.update name (File t (Document v)) d)"
proof -
  have "map_of d name \<noteq> Some (Dir t')" for t'
  proof
    assume "map_of d name = Some (Dir t')"
    then have "(name, Dir t') \<in> set d" by (rule map_of_SomeD)
    with assms show False by (auto simp: list_all_iff)
  qed
  then show ?thesis
    by (auto simp: write_json_def split: option.splits node.splits)
qed

lemma load_index_cong:
  "map_of d' ''index.json'' = map_of d ''index.json'' \<Longrightarrow> load_index e d' = load_index e d"
  by (simp add: load_index_def read_json_def)

lemma history_file_not_index: "history_file e p \<noteq> ''index.json''"
  by (simp add: history_file_def)

lemma is_file_update:
  "list_all is_file d \<Longrightarrow> list_all is_file (AList.update k (File t x) d)"
  by (induction d) auto

lemma load_written:
  "load_index e (AList.update ''index.json'' (File t (Document idx)) d) = Inr idx"
  by (simp add: load_index_def read_json_def update_conv')

lemma record_call_step:
  assumes inv: "store_inv n st" and b: "builds_entry c"
  shows "\<exists>entry idx idx' tot cost.
           history_entry (c_env c) (c_prompt c) (c_response c) (c_result c) (c_files_info c) (c_args c) = Inr entry
         \<and> load_index (c_env c) (files st) = Inr idx
         \<and> updated_index idx entry = Inr idx'
         \<and> good_index n idx \<and> good_index (Suc n) idx'
         \<and> total_tokens (c_result c) = Inr tot
         \<and> calculate_estimated_cost (dget (c_result c) ''model'' (JStr []))
               (dget (c_result c) ''prompt_tokens'' (JInt 0))
               (dget (c_result c) ''response_tokens'' (JInt 0)) = Inr cost
         \<and> tokens_used idx' = tokens_used idx +
               (if tot = JStr ''N/A'' then 0
                else of_int (int_val (dget (c_result c) ''prompt_tokens'' (JInt 0))
                           + int_val (dget (c_result c) ''response_tokens'' (JInt 0))))
         \<and> total_cost idx' = round_to 6 (total_cost idx + cost)
         \<and> files (record_call st c) =
               AList.update ''index.json'' (File (now (c_env c)) (Document idx'))
                 (AList.update (call_file c) (File (now (c_env c)) (Document entry)) (files st))
         \<and> printed (record_call st c) = printed st @ [History_saved (call_file c)]"
proof -
  let ?e = "c_env c"
  let ?t = "int_val (dget (c_result c) ''prompt_tokens'' (JInt 0))
            + int_val (dget (c_result c) ''response_tokens'' (JInt 0))"
  from b obtain entry where en: "history_enabled ?e"
    and he: "history_entry ?e (c_prompt c) (c_response c) (c_result c) (c_files_info c) (c_args c) = Inr entry"
    unfolding builds_entry_def by (auto split: sum.splits)
  from entry_fields[OF he] obtain tot cost smry where
    tt: "total_tokens (c_result c) = Inr tot"
    and cc: "calculate_estimated_cost (dget (c_result c) ''model'' (JStr []))
               (dget (c_result c) ''prompt_tokens'' (JInt 0))
               (dget (c_result c) ''response_tokens'' (JInt 0)) = Inr cost"
    and tk: "getitem entry ''tokens'' =
               Inr (JObj [(''prompt_tokens'', dget (c_result c) ''prompt_tokens'' (JStr ''N/A'')),
                          (''response_tokens'', dget (c_result c) ''response_tokens'' (JStr ''N/A'')),
                          (''total_tokens'', tot), (''estimated_cost_usd'', JNum cost)])"
    and sm: "summary_of entry = Inr smry"
    by blast
  from inv have fl: "list_all is_file (files st)" and
    li: "\<exists>idx. load_index ?e (files st) = Inr idx \<and> good_index n idx"
    unfolding store_inv_def by auto
  then obtain idx where lo: "load_index ?e (files st) = Inr idx" and gi: "good_index n idx"
    by blast
  have tc: "tot = JStr ''N/A'' \<or> tot = JInt ?t" by (rule total_tokens_cases[OF tt])
  from updated_index_good[OF gi sm tk tc] obtain idx' where
    up: "updated_index idx entry = Inr idx'" and gi': "good_index (Suc n) idx'"
    and tu: "tokens_used idx' = tokens_used idx + (if tot = JInt ?t then of_int ?t else 0)"
    and co: "total_cost idx' = round_to 6 (total_cost idx + cost)"
    by blast
  have tu': "tokens_used idx' = tokens_used idx + (if tot = JStr ''N/A'' then 0 else of_int ?t)"
    using tu tc by auto
  define d where "d = AList.update (call_file c) (File (now ?e) (Document entry)) (files st)"
  have w1: "write_json (files st) (history_file ?e (c_prompt c)) (now ?e) entry = Inr d"
    unfolding d_def call_file_def by (rule write_json_files[OF fl])
  have fd: "list_all is_file d" unfolding d_def by (rule is_file_update[OF fl])
  have "map_of d ''index.json'' = map_of (files st) ''index.json''"
    unfolding d_def call_file_def using history_file_not_index[of ?e "c_prompt c"]
    by (simp add: update_conv')
  then have lo': "load_index ?e d = Inr idx" using lo load_index_cong by metis
  have ib: "index_body ?e d entry = Inr (AList.update ''index.json'' (File (now ?e) (Document idx')) d)"
    unfolding index_body_def using lo' up write_json_files[OF fd]
    by (simp add: bind_exn_simps)
  have st': "record_call st c =
      \<lparr>files = AList.update ''index.json'' (File (now ?e) (Document idx')) d,
       printed = printed st @ [History_saved (call_file c)]\<rparr>"
    unfolding record_call_def save_to_history_def update_history_index_def
    using en he w1 ib by (simp add: bind_exn_simps call_file_def)
  show ?thesis
    using he lo up gi gi' tt cc tu' co st' unfolding d_def by auto
qed

lemma store_inv_empty: "store_inv 0 empty_store"
  by (simp add: store_inv_def empty_store_def load_index_def good_fresh)

lemma store_inv_step:
  assumes "store_inv n st" and "builds_entry c"
  shows "store_inv (Suc n) (record_call st c)"
proof -
  from record_call_step[OF assms] obtain entry idx' where
    g: "good_index (Suc n) idx'" and
    f: "files (record_call st c) =
               AList.update ''index.json'' (File (now (c_env c)) (Document idx'))
                 (AList.update (call_file c) (File (now (c_env c)) (Document entry)) (files st))"
    by blast
  from assms(1) have "list_all is_file (files st)" "distinct (map fst (files st))"
    by (simp_all add: store_inv_def)
  then show ?thesis
    unfolding store_inv_def f using g
    by (simp add: is_file_update distinct_update load_written)
qed

lemma record_all_snoc: "record_all st (cs @ [c]) = record_call (record_all st cs) c"
  by (simp add: record_all_def)

lemma store_inv_all:
  "list_all builds_entry cs \<Longrightarrow> store_inv (length cs) (record_all empty_store cs)"
proof (induction cs rule: rev_induct)
  case Nil
  then show ?case by (simp add: record_all_def store_inv_empty)
next
  case (snoc c cs)
  then show ?case by (simp add: record_all_snoc store_inv_step)
qed

lemma current_index_load:
  assumes "load_index e (files st) = Inr idx"
  shows "field (current_index st) k = field idx k \<or> k = ''created_at''"
proof (cases "map_of (files st) ''index.json''")
  case None
  then have "idx = fresh_index (iso e)" and "current_index st = fresh_index []"
    using assms by (simp_all add: load_index_def current_index_def read_json_def)
  then show ?thesis by (auto simp: field_def fresh_index_def)
next
  case (Some a)
  then have "read_json (files st) ''index.json'' = Inr idx"
    using assms by (simp add: load_index_def)
  then show ?thesis by (simp add: current_index_def)
qed

lemma current_index_good:
  assumes "store_inv n st"
  shows "good_index n (current_index st)"
proof -
  from assms obtain idx where lo: "load_index example_env (files st) = Inr idx" and g: "good_index n idx"
    unfolding store_inv_def by blast
  show ?thesis
  proof (cases "map_of (files st) ''index.json''")
    case None
    then have "current_index st = fresh_index []" and "idx = fresh_index (iso example_env)"
      using lo by (simp_all add: load_index_def current_index_def read_json_def)
    then show ?thesis using g by (simp add: good_index_def fresh_index_def)
  next
    case (Some a)
    then have "read_json (files st) ''index.json'' = Inr idx"
      using lo by (simp add: load_index_def)
    then show ?thesis using g by (simp add: current_index_def)
  qed
qed

lemma totals_step:
  assumes inv: "store_inv n st" and b: "builds_entry c" and nn: "nonneg_counts (c_result c)"
  shows "tokens_used (current_index st) \<le> tokens_used (current_index (record_call st c))
       \<and> total_cost (current_index st) \<le> total_cost (current_index (record_call st c))"
proof -
  from record_call_step[OF inv b] obtain entry idx idx' tot cost where
    lo: "load_index (c_env c) (files st) = Inr idx"
    and gi: "good_index n idx"
    and cc: "calculate_estimated_cost (dget (c_result c) ''model'' (JStr []))
               (dget (c_result c) ''prompt_tokens'' (JInt 0))
               (dget (c_result c) ''response_tokens'' (JInt 0)) = Inr cost"
    and tu: "tokens_used idx' = tokens_used idx +
               (if tot = JStr ''N/A'' then 0
                else of_int (int_val (dget (c_result c) ''prompt_tokens'' (JInt 0))
                           + int_val (dget (c_result c) ''response_tokens'' (JInt 0))))"
    and co: "total_cost idx' = round_to 6 (total_cost idx + cost)"
    and f: "files (record_call st c) =
               AList.update ''index.json'' (File (now (c_env c)) (Document idx'))
                 (AList.update (call_file c) (File (now (c_env c)) (Document entry)) (files st))"
    by blast
  have new: "current_index (record_call st c) = idx'"
    unfolding current_index_def f by (simp add: read_json_def update_conv')
  have old_t: "tokens_used (current_index st) = tokens_used idx"
    and old_c: "total_cost (current_index st) = total_cost idx"
    using current_index_load[OF lo, of "''total_tokens_used''"]
      current_index_load[OF lo, of "''total_estimated_cost''"]
    by (simp_all add: tokens_used_def total_cost_def)
  have c0: "0 \<le> cost" using cost_nonneg[OF cc] nn by (simp add: nonneg_counts_def)
  have "round_to 6 (total_cost idx) \<le> round_to 6 (total_cost idx + cost)"
    using c0 by (intro round_to_mono) simp
  moreover have "round_to 6 (total_cost idx) = total_cost idx"
    using gi by (rule good_index_fields)
  ultimately have "total_cost idx \<le> total_cost idx'" using co by simp
  moreover have "tokens_used idx \<le> tokens_used idx'"
    using tu nn by (simp add: nonneg_counts_def)
  ultimately show ?thesis using new old_t old_c by simp
qed

lemma totals_never_decrease:
  assumes "list_all builds_entry cs" and "builds_entry c" and "nonneg_counts (c_result c)"
  shows "tokens_used (current_index (record_all empty_store cs))
           \<le> tokens_used (current_index (record_all empty_store (cs @ [c])))
       \<and> total_cost (current_index (record_all empty_store cs))
           \<le> total_cost (current_index (record_all empty_store (cs @ [c])))"
  using totals_step[OF store_inv_all[OF assms(1)] assms(2,3)] by (simp add: record_all_snoc)

lemma count_after_recording:
  assumes "list_all builds_entry cs"
  shows "getitem (current_index (record_all empty_store cs)) ''total_interactions'' = Inr (JInt (int (length cs)))"
    and "\<exists>xs. getitem (current_index (record_all empty_store cs)) ''interactions'' = Inr (JArr xs)
           \<and> length xs = length cs"
  using good_index_fields[OF current_index_good[OF store_inv_all[OF assms]]] by auto

section \<open>The malformed index, the statistics, the frame of pruning and the price table\<close>

lemma malformed_index:
  "map_of (files st) ''index.json'' = Some (File t Malformed) \<Longrightarrow>
   update_history_index e st entry = st\<lparr>printed := printed st @ [Index_warning JSONDecodeError]\<rparr>"
  by (simp add: update_history_index_def index_body_def load_index_def read_json_def bind_exn_def)

lemma malformed_example: "read_json (files (update_history_index example_env \<lparr>files = [(''index.json'', File 0 Malformed)], printed = []\<rparr> example_entry)) ''index.json'' = Inl JSONDecodeError
  \<and> printed (update_history_index example_env \<lparr>files = [(''index.json'', File 0 Malformed)], printed = []\<rparr> example_entry) = [Index_warning JSONDecodeError]"
  by (simp add: update_history_index_def index_body_def load_index_def read_json_def bind_exn_def)

lemma stats_total:
  "statistics_of p r =
     Inr (JObj [(''prompt_to_response_ratio'',
                   if p = [] then JInt 0
                   else JNum (round_to 2 (of_int (int (length r)) / of_int (int (length p))))),
                (''avg_response_word_length'',
                   JNum (round_to 2 (of_int (int (length r)) / of_int (max (int (length (split_ws r))) 1)))),
                (''response_lines'', JInt (int (count_list r (CHR 0x0A)) + 1))])"
  by (simp add: statistics_of_def true_div_def bind_exn_def)

lemma unlink_each_frame:
  "list_all (\<lambda>(n, f). history_name n) old \<Longrightarrow>
   filter (\<lambda>(n, f). \<not> history_name n) (unlink_each old d) = filter (\<lambda>(n, f). \<not> history_name n) d"
proof (induction old d rule: unlink_each.induct)
  case (2 n t x old d)
  have "filter (\<lambda>(n, f). \<not> history_name n) (filter (\<lambda>(m, f). m \<noteq> n) d) = filter (\<lambda>(n, f). \<not> history_name n) d"
    using "2.prems" by (auto intro!: filter_cong)
  with 2 show ?case by simp
qed simp_all

lemma unlink_each_subseq: "subseq (unlink_each old d) d"
proof (induction old d rule: unlink_each.induct)
  case (2 n t x old d)
  have "subseq (filter (\<lambda>(m, f). m \<noteq> n) d) d" by simp
  with 2 show ?case using subseq_order.order_trans by fastforce
qed simp_all

lemma old_files_named: "list_all (\<lambda>(n, f). history_name n) (slice_from (sorted_newest_first (glob_history d)) k)"
proof -
  have "set (slice_from (sorted_newest_first (glob_history d)) k) \<subseteq> set (glob_history d)"
    by (auto simp: slice_from_def sorted_newest_first_def dest: in_set_dropD)
  then show ?thesis by (auto simp: list_all_iff glob_history_def)
qed

lemma cleanup_frame:
  "filter (\<lambda>(n, f). \<not> history_name n) (cleanup_old_history d k) = filter (\<lambda>(n, f). \<not> history_name n) d"
  by (simp add: cleanup_old_history_def Let_def unlink_each_frame old_files_named)

lemma cleanup_subseq: "subseq (cleanup_old_history d k) d"
  by (simp add: cleanup_old_history_def Let_def unlink_each_subseq)

lemma map_of_filter_key:
  "(\<And>f. P (k, f)) \<Longrightarrow> map_of (filter P d) k = map_of d k"
  by (induction d) auto

lemma index_not_history: "\<not> history_name ''index.json''"
  by (simp add: history_name_def)

lemma cleanup_keeps:
  assumes "\<not> history_name n"
  shows "map_of (cleanup_old_history d k) n = map_of d n"
proof -
  have "map_of (cleanup_old_history d k) n = map_of (filter (\<lambda>(n, f). \<not> history_name n) (cleanup_old_history d k)) n"
    using assms by (simp add: map_of_filter_key)
  also have "\<dots> = map_of (filter (\<lambda>(n, f). \<not> history_name n) d) n"
    by (simp add: cleanup_frame)
  also have "\<dots> = map_of d n" using assms by (simp add: map_of_filter_key)
  finally show ?thesis .
qed

lemma example_cleanup: "cleanup_old_history example_directory 2 = 
     [(''index.json'', File 30 Malformed),
      (''history_20240101_000002_cccccccc.json'', File 30 (Document JNull)),
      (''notes.txt'', File 5 Malformed),
      (''history_20240101_000001_bbbbbbbb.json'', File 20 (Document JNull))]"
  by (simp add: cleanup_old_history_def example_directory_def glob_history_def history_name_def
      sorted_newest_first_def slice_from_def suffix_to_prefix)

lemma cost_mini_example:
  "calculate_estimated_cost (JStr ''gpt-4o-mini'') (JInt 1000000) (JInt 0) = Inr (5 / 2)"
  by (simp add: calculate_estimated_cost_def pricing_def lower_def lower_char_Char code_Char
      sublist_code round_to_def round_half_even_def)

lemma cost_unknown:
  assumes "list_all (\<lambda>(k, p). \<not> sublist k (lower name)) pricing"
  shows "calculate_estimated_cost (JStr name) pt rt = Inr 0"
proof -
  have "find (\<lambda>(model_key, prices). sublist model_key (lower name)) pricing = None"
    using assms by (auto simp: find_None_iff list_all_iff)
  then show ?thesis by (simp add: calculate_estimated_cost_def)
qed

lemma cost_mini:
  assumes "sublist ''gpt-4o-mini'' (lower name)"
  shows "calculate_estimated_cost (JStr name) (JInt 1000000) (JInt 0) = Inr (5 / 2)"
proof -
  have "sublist ''gpt-4o'' ''gpt-4o-mini''" by (simp add: sublist_code)
  then have "sublist ''gpt-4o'' (lower name)" using assms sublist_order.order_trans by blast
  then show ?thesis
    by (simp add: calculate_estimated_cost_def pricing_def round_to_def round_half_even_def)
qed

section \<open>What pruning keeps\<close>

lemma unlink_each_files:
  "list_all is_file old \<Longrightarrow> unlink_each old d = filter (\<lambda>(m, f). m \<notin> fst ` set old) d"
proof (induction old d rule: unlink_each.induct)
  case (2 n t x old d)
  then have "unlink_each ((n, File t x) # old) d =
      filter (\<lambda>(m, f). m \<notin> fst ` set old) (filter (\<lambda>(m, f). m \<noteq> n) d)"
    by simp
  also have "\<dots> = filter (\<lambda>(m, f). m \<notin> fst ` set ((n, File t x) # old)) d"
    by (auto intro!: filter_cong)
  finally show ?case .
qed simp_all

lemma glob_distinct: "distinct (map fst d) \<Longrightarrow> distinct (map fst (glob_history d))"
  by (simp add: glob_history_def distinct_map_filter)

lemma sorted_newest_first_props:
  "set (sorted_newest_first fs) = set fs"
  "length (sorted_newest_first fs) = length fs"
  "distinct (map fst fs) \<Longrightarrow> distinct (map fst (sorted_newest_first fs))"
  "sorted (map (\<lambda>(n, f). - mtime f) (sorted_newest_first fs))"
proof -
  show "set (sorted_newest_first fs) = set fs" by (simp add: sorted_newest_first_def)
  show "length (sorted_newest_first fs) = length fs" by (simp add: sorted_newest_first_def)
  show "sorted (map (\<lambda>(n, f). - mtime f) (sorted_newest_first fs))"
    by (simp add: sorted_newest_first_def)
  assume "distinct (map fst fs)"
  then show "distinct (map fst (sorted_newest_first fs))"
    by (simp add: distinct_map sorted_newest_first_def)
qed

lemma cleanup_prunes:
  assumes dd: "distinct (map fst d)" and fl: "list_all is_file d" and k0: "0 \<le> k"
  shows "set (glob_history (cleanup_old_history d k)) = set (take (nat k) (sorted_newest_first (glob_history d)))"
    and "length (glob_history (cleanup_old_history d k)) = min (nat k) (length (glob_history d))"
proof -
  let ?hf = "sorted_newest_first (glob_history d)"
  have dh: "distinct (map fst ?hf)"
    using dd by (simp add: glob_distinct sorted_newest_first_props)
  have sh: "set ?hf = set (glob_history d)" by (simp add: sorted_newest_first_props)
  have lh: "length ?hf = length (glob_history d)" by (simp add: sorted_newest_first_props)
  have dg: "distinct (glob_history d)"
    using glob_distinct[OF dd] by (rule distinct_map[THEN iffD1, THEN conjunct1])
  have both: "set (glob_history (cleanup_old_history d k)) = set (take (nat k) ?hf)
      \<and> length (glob_history (cleanup_old_history d k)) = min (nat k) (length (glob_history d))"
  proof (cases "int (length ?hf) > k")
    case False
    then have "cleanup_old_history d k = d" by (simp add: cleanup_old_history_def Let_def)
    moreover have "take (nat k) ?hf = ?hf" using False by simp
    ultimately show ?thesis using sh lh False by auto
  next
    case True
    let ?old = "drop (nat k) ?hf"
    have old: "slice_from ?hf k = ?old" using k0 by (simp add: slice_from_def)
    have "set ?old \<subseteq> set d"
      using sh by (auto simp: glob_history_def dest: in_set_dropD)
    then have fo: "list_all is_file ?old" using fl by (auto simp: list_all_iff)
    have cl: "cleanup_old_history d k = filter (\<lambda>(m, f). m \<notin> fst ` set ?old) d"
      using True old unlink_each_files[OF fo] by (simp add: cleanup_old_history_def Let_def)
    have gl: "glob_history (cleanup_old_history d k) = filter (\<lambda>(m, f). m \<notin> fst ` set ?old) (glob_history d)"
      unfolding cl glob_history_def by (simp add: conj_commute)
    have split: "?hf = take (nat k) ?hf @ ?old" by simp
    have disj: "fst ` set (take (nat k) ?hf) \<inter> fst ` set ?old = {}"
      using dh by (subst (asm) split) (simp only: map_append distinct_append set_map)
    have seteq: "set (filter (\<lambda>(m, f). m \<notin> fst ` set ?old) (glob_history d)) = set (take (nat k) ?hf)"
    proof (rule set_eqI)
      fix x
      have "x \<in> set (glob_history d) \<longleftrightarrow> x \<in> set (take (nat k) ?hf) \<or> x \<in> set ?old"
        using sh by (metis Un_iff set_append split)
      moreover have "fst x \<notin> fst ` set ?old" if "x \<in> set (take (nat k) ?hf)"
        using that disj by auto
      moreover have "fst x \<in> fst ` set ?old" if "x \<in> set ?old" using that by auto
      ultimately show "x \<in> set (filter (\<lambda>(m, f). m \<notin> fst ` set ?old) (glob_history d)) \<longleftrightarrow>
          x \<in> set (take (nat k) ?hf)"
        by (cases x) auto
    qed
    have d1: "distinct (glob_history (cleanup_old_history d k))" unfolding gl using dg by simp
    have d2: "distinct (take (nat k) ?hf)"
      using dh by (metis distinct_map distinct_take)
    have "length (glob_history (cleanup_old_history d k)) = card (set (glob_history (cleanup_old_history d k)))"
      using d1 by (simp add: distinct_card)
    also have "\<dots> = card (set (take (nat k) ?hf))" unfolding gl seteq ..
    also have "\<dots> = length (take (nat k) ?hf)" using d2 by (simp add: distinct_card)
    also have "\<dots> = min (nat k) (length (glob_history d))" using lh by simp
    finally show ?thesis using gl seteq by simp
  qed
  show "set (glob_history (cleanup_old_history d k)) = set (take (nat k) (sorted_newest_first (glob_history d)))"
    using both by simp
  show "length (glob_history (cleanup_old_history d k)) = min (nat k) (length (glob_history d))"
    using both by simp
qed

lemma cleanup_newest:
  assumes dd: "distinct (map fst d)" and fl: "list_all is_file d" and k0: "0 \<le> k"
    and kept: "kept \<in> set (glob_history (cleanup_old_history d k))"
    and gone: "gone \<in> set (glob_history d)" "gone \<notin> set (glob_history (cleanup_old_history d k))"
  shows "mtime (snd gone) \<le> mtime (snd kept)"
proof -
  let ?hf = "sorted_newest_first (glob_history d)"
  have s: "set (glob_history (cleanup_old_history d k)) = set (take (nat k) ?hf)"
    by (rule cleanup_prunes[OF dd fl k0])
  have "gone \<in> set ?hf" using gone(1) by (simp add: sorted_newest_first_props)
  then have "gone \<in> set (take (nat k) ?hf) \<or> gone \<in> set (drop (nat k) ?hf)"
    by (metis Un_iff append_take_drop_id set_append)
  then have g: "gone \<in> set (drop (nat k) ?hf)" using gone(2) s by simp
  have k': "kept \<in> set (take (nat k) ?hf)" using kept s by simp
  have "sorted (map (\<lambda>(n, f). - mtime f) (take (nat k) ?hf @ drop (nat k) ?hf))"
    by (simp add: sorted_newest_first_props)
  then have "(\<lambda>(n, f). - mtime f) kept \<le> (\<lambda>(n, f). - mtime f) gone"
    unfolding map_append sorted_append using k' g by auto
  then show ?thesis by (cases kept; cases gone) simp
qed

section \<open>Record files after a sequence of recordings\<close>

lemma call_file_history: "history_name (call_file c)"
  by (simp add: call_file_def history_file_def history_name_def suffix_def)

lemma glob_names: "fst ` set (glob_history d) = {n \<in> fst ` set d. history_name n}"
  by (auto simp: glob_history_def image_iff)

lemma names_update: "fst ` set (AList.update k v d) = insert k (fst ` set d)"
  using dom_update[of k v d] by (simp add: dom_map_of_conv_image_fst)

lemma files_names_step:
  assumes "store_inv n st" and "builds_entry c"
  shows "fst ` set (glob_history (files (record_call st c))) = insert (call_file c) (fst ` set (glob_history (files st)))"
proof -
  from record_call_step[OF assms] obtain entry idx' where
    f: "files (record_call st c) =
               AList.update ''index.json'' (File (now (c_env c)) (Document idx'))
                 (AList.update (call_file c) (File (now (c_env c)) (Document entry)) (files st))"
    by blast
  show ?thesis
    unfolding glob_names f names_update
    using call_file_history[of c] index_not_history by auto
qed

lemma files_names_all:
  "list_all builds_entry cs \<Longrightarrow>
   fst ` set (glob_history (files (record_all empty_store cs))) = set (map call_file cs)"
proof (induction cs rule: rev_induct)
  case Nil
  then show ?case by (simp add: record_all_def empty_store_def glob_history_def)
next
  case (snoc c cs)
  then have b: "list_all builds_entry cs" "builds_entry c" by simp_all
  show ?case
    using files_names_step[OF store_inv_all[OF b(1)] b(2)] snoc.IH[OF b(1)]
    by (simp add: record_all_snoc)
qed

lemma count_files_after_recording:
  assumes "list_all builds_entry cs" and "distinct (map call_file cs)"
  shows "length (glob_history (files (record_all empty_store cs))) = length cs"
proof -
  let ?d = "files (record_all empty_store cs)"
  have "distinct (map fst ?d)"
    using store_inv_all[OF assms(1)] by (simp add: store_inv_def)
  then have "distinct (map fst (glob_history ?d))" by (rule glob_distinct)
  then have "length (glob_history ?d) = card (fst ` set (glob_history ?d))"
    by (metis distinct_card length_map set_map)
  also have "\<dots> = card (set (map call_file cs))" by (simp add: files_names_all[OF assms(1)])
  also have "\<dots> = length cs" using assms(2) by (metis distinct_card length_map)
  finally show ?thesis .
qed

lemma builds_example: "builds_entry (example_call i)"
  by (simp add: builds_entry_def example_call_def example_env_def history_entry_def Let_def
      tokens_of_def total_tokens_def dget_def py_add_def stats_total configuration_of_def
      path_format_def hasattr_def bind_exn_simps calculate_estimated_cost_def pricing_def
      lower_def lower_char_Char code_Char sublist_code)

lemma nonneg_example: "nonneg_counts (c_result (example_call i))"
  by (simp add: nonneg_counts_def example_call_def dget_def)

lemma two_digits_inj:
  assumes "a < 100" "b < 100" "two_digits a = two_digits b"
  shows "a = b"
proof -
  have lt: "48 + a div 10 < 256" "48 + b div 10 < 256" "48 + a mod 10 < 256" "48 + b mod 10 < 256"
    using assms(1,2) by simp_all
  from assms(3) have "char_of (48 + a div 10) = (char_of (48 + b div 10) :: char)"
    and "char_of (48 + a mod 10) = (char_of (48 + b mod 10) :: char)"
    by (simp_all add: two_digits_def)
  then have "of_char (char_of (48 + a div 10) :: char) = (of_char (char_of (48 + b div 10) :: char) :: nat)"
    and "of_char (char_of (48 + a mod 10) :: char) = (of_char (char_of (48 + b mod 10) :: char) :: nat)"
    by simp_all
  then have "a div 10 = b div 10" "a mod 10 = b mod 10"
    using lt by (simp_all add: of_char_of take_bit_eq_mod)
  then show ?thesis by (metis div_mult_mod_eq)
qed

lemma stamp_of_inj:
  assumes "i < 6000" "j < 6000" "stamp_of i = stamp_of j"
  shows "i = j"
proof -
  have "i div 60 < 100" "j div 60 < 100" "i mod 60 < 100" "j mod 60 < 100"
    using assms(1,2) by simp_all
  moreover from assms(3) have "two_digits (i div 60) = two_digits (j div 60)"
    and "two_digits (i mod 60) = two_digits (j mod 60)"
    by (simp_all add: stamp_of_def two_digits_def)
  ultimately have "i div 60 = j div 60" "i mod 60 = j mod 60"
    using two_digits_inj by blast+
  then show ?thesis by (metis div_mult_mod_eq)
qed

lemma example_files_distinct: "n \<le> 6000 \<Longrightarrow> distinct (map call_file (map example_call [0..<n]))"
proof -
  assume n: "n \<le> 6000"
  have "inj_on (call_file \<circ> example_call) {0..<n}"
  proof (rule inj_onI)
    fix i j assume ij: "i \<in> {0..<n}" "j \<in> {0..<n}" and eq: "(call_file \<circ> example_call) i = (call_file \<circ> example_call) j"
    from eq have "stamp_of i = stamp_of j"
      by (simp add: call_file_def example_call_def history_file_def example_env_def)
    then show "i = j" using ij n stamp_of_inj by simp
  qed
  then show ?thesis by (simp add: distinct_map)
qed

lemma builds_examples: "list_all builds_entry (map example_call [0..<n])"
  by (simp add: list_all_iff builds_example)

lemma recorded_105: "length (glob_history (files (record_all empty_store (map example_call [0..<105])))) = 105"
  using count_files_after_recording[OF builds_examples example_files_distinct, of 105] by simp

section \<open>The matcher lists only matches of the pattern\<close>

lemma str_match_sound:
  "str_match ic w s = Some s' \<Longrightarrow> \<exists>m. s = m @ s' \<and> list_all2 (chr_eq ic) w m"
proof (induction ic w s rule: str_match.induct)
  case (1 ic s)
  then show ?case by simp
next
  case (2 ic c w)
  then show ?case by simp
next
  case (3 ic c w x s)
  then have e: "chr_eq ic c x" and r: "str_match ic w s = Some s'"
    by (simp_all split: if_splits)
  from "3.IH"[OF e r] obtain m where "s = m @ s'" "list_all2 (chr_eq ic) w m" by blast
  then have "x # s = (x # m) @ s'" "list_all2 (chr_eq ic) (c # w) (x # m)"
    using e by simp_all
  then show ?case by blast
qed

lemma rmatch_Star_set:
  "x \<in> set (rmatch ic (Star r) cs) \<longleftrightarrow>
     x = cs \<or> (\<exists>cs1 \<in> set (rmatch ic r cs). length (snd cs1) < length (snd cs)
                  \<and> x \<in> set (rmatch ic (Star r) cs1))"
  by (subst rmatch.simps) (auto split: if_splits)

lemma rmatch_LazyStar_set:
  "x \<in> set (rmatch ic (LazyStar r) cs) \<longleftrightarrow>
     x = cs \<or> (\<exists>cs1 \<in> set (rmatch ic r cs). length (snd cs1) < length (snd cs)
                  \<and> x \<in> set (rmatch ic (LazyStar r) cs1))"
  by (subst rmatch.simps) (auto split: if_splits)

lemma rmatch_sound:
  "cs' \<in> set (rmatch ic r cs) \<Longrightarrow> \<exists>m \<in> lang ic r. snd cs = m @ snd cs'"
proof (induction ic r cs arbitrary: cs' rule: rmatch.induct)
  case (1 ic w cs)
  then obtain s' where s: "str_match ic w (snd cs) = Some s'" and c: "cs' = (fst cs, s')"
    by (cases "str_match ic w (snd cs)") auto
  from str_match_sound[OF s] show ?case using c by auto
next
  case (2 ic neg items cs)
  then show ?case by (auto split: list.splits if_splits)
next
  case (3 ic r1 r2 cs)
  from "3.prems" obtain cs1 where c1: "cs1 \<in> set (rmatch ic r1 cs)" and c2: "cs' \<in> set (rmatch ic r2 cs1)"
    by auto
  from "3.IH"(1)[OF c1] obtain m1 where m1: "m1 \<in> lang ic r1" "snd cs = m1 @ snd cs1" by blast
  from "3.IH"(2)[OF c1 c2] obtain m2 where m2: "m2 \<in> lang ic r2" "snd cs1 = m2 @ snd cs'" by blast
  have "m1 @ m2 \<in> lang ic (Seq r1 r2)" using m1 m2 by auto
  moreover have "snd cs = (m1 @ m2) @ snd cs'" using m1 m2 by simp
  ultimately show ?case by blast
next
  case (4 ic r1 r2 cs)
  from "4.prems" have "cs' \<in> set (rmatch ic r1 cs) \<or> cs' \<in> set (rmatch ic r2 cs)" by simp
  then show ?case
  proof
    assume "cs' \<in> set (rmatch ic r1 cs)"
    from "4.IH"(1)[OF this] obtain m where m: "m \<in> lang ic r1" "snd cs = m @ snd cs'" by blast
    then have "m \<in> lang ic (Alt r1 r2)" by simp
    then show ?thesis using m(2) by blast
  next
    assume "cs' \<in> set (rmatch ic r2 cs)"
    from "4.IH"(2)[OF this] obtain m where m: "m \<in> lang ic r2" "snd cs = m @ snd cs'" by blast
    then have "m \<in> lang ic (Alt r1 r2)" by simp
    then show ?thesis using m(2) by blast
  qed
next
  case (5 ic r cs)
  from "5.prems" consider (stop) "cs' = cs"
    | (more) cs1 where "cs1 \<in> set (rmatch ic r cs)" "length (snd cs1) < length (snd cs)"
        "cs' \<in> set (rmatch ic (Star r) cs1)"
    unfolding rmatch_Star_set[of cs' ic r cs] by blast
  then show ?case
  proof cases
    case stop
    have "[] \<in> lang ic (Star r)" by (auto intro: exI[of _ "[]"])
    then show ?thesis using stop by auto
  next
    case more
    from "5.IH"(1)[OF more(1)] obtain m1 where m1: "m1 \<in> lang ic r" "snd cs = m1 @ snd cs1" by blast
    from "5.IH"(2)[OF more(1) more(2) more(3)] obtain ms where
      ms: "set ms \<subseteq> lang ic r" "snd cs1 = concat ms @ snd cs'" by auto
    have "concat (m1 # ms) \<in> lang ic (Star r)"
      using m1 ms by (auto intro!: exI[of _ "m1 # ms"])
    moreover have "snd cs = concat (m1 # ms) @ snd cs'" using m1 ms by simp
    ultimately show ?thesis by blast
  qed
next
  case (6 ic r cs)
  from "6.prems" consider (stop) "cs' = cs"
    | (more) cs1 where "cs1 \<in> set (rmatch ic r cs)" "length (snd cs1) < length (snd cs)"
        "cs' \<in> set (rmatch ic (LazyStar r) cs1)"
    unfolding rmatch_LazyStar_set[of cs' ic r cs] by blast
  then show ?case
  proof cases
    case stop
    have "[] \<in> lang ic (LazyStar r)" by (auto intro: exI[of _ "[]"])
    then show ?thesis using stop by auto
  next
    case more
    from "6.IH"(1)[OF more(1)] obtain m1 where m1: "m1 \<in> lang ic r" "snd cs = m1 @ snd cs1" by blast
    from "6.IH"(2)[OF more(1) more(2) more(3)] obtain ms where
      ms: "set ms \<subseteq> lang ic r" "snd cs1 = concat ms @ snd cs'" by auto
    have "concat (m1 # ms) \<in> lang ic (LazyStar r)"
      using m1 ms by (auto intro!: exI[of _ "m1 # ms"])
    moreover have "snd cs = concat (m1 # ms) @ snd cs'" using m1 ms by simp
    ultimately show ?thesis by blast
  qed
next
  case (7 ic n r cs)
  from "7.prems" obtain cs1 where c1: "cs1 \<in> set (rmatch ic r cs)" and e: "snd cs' = snd cs1"
    by auto
  from "7.IH"[OF c1] obtain m where m: "m \<in> lang ic r" "snd cs = m @ snd cs1" by blast
  then have "m \<in> lang ic (Grp n r)" by simp
  then show ?case using m(2) e by metis
qed



lemma rmatch_Grp_capture:
  assumes "cs' \<in> set (rmatch ic (Grp n r) cs)"
  shows "\<exists>g \<in> lang ic r. snd cs = g @ snd cs' \<and> map_of (fst cs') n = Some g"
proof -
  from assms obtain cs1 where c1: "cs1 \<in> set (rmatch ic r cs)"
    and c: "cs' = ((n, take (length (snd cs) - length (snd cs1)) (snd cs)) # fst cs1, snd cs1)"
    by auto
  from rmatch_sound[OF c1] obtain g where g: "g \<in> lang ic r" "snd cs = g @ snd cs1" by blast
  then have "take (length (snd cs) - length (snd cs1)) (snd cs) = g" by simp
  then show ?thesis using g c by auto
qed

lemma match_at_Some:
  "match_at ic r s = Some m \<Longrightarrow> rmatch ic r ([], s) \<noteq> [] \<and> m = hd (rmatch ic r ([], s))"
  by (auto simp: match_at_def split: list.splits)

lemma match_at_sound:
  assumes "match_at ic r s = Some (c, s')"
  shows "\<exists>m \<in> lang ic r. s = m @ s'"
proof -
  from assms have "(c, s') \<in> set (rmatch ic r ([], s))"
    by (auto simp: match_at_def split: list.splits)
  from rmatch_sound[OF this] show ?thesis by simp
qed

lemma re_search_sound:
  "re_search ic r s \<Longrightarrow> \<exists>pre m post. s = pre @ m @ post \<and> m \<in> lang ic r"
proof (induction s)
  case Nil
  then obtain c s' where "match_at ic r [] = Some (c, s')"
    by (cases "match_at ic r []") auto
  from match_at_sound[OF this] show ?case by (metis append_Nil)
next
  case (Cons x xs)
  show ?case
  proof (cases "match_at ic r (x # xs)")
    case None
    with Cons obtain pre m post where "xs = pre @ m @ post" "m \<in> lang ic r" by auto
    then have "x # xs = (x # pre) @ m @ post" by simp
    then show ?thesis using \<open>m \<in> lang ic r\<close> by blast
  next
    case (Some a)
    obtain c s' where "a = (c, s')" by (cases a)
    with Some match_at_sound[of ic r "x # xs" c s'] show ?thesis by (metis append_Nil)
  qed
qed

section \<open>Letter case, words and whitespace\<close>

lemma code_inj: "code x = code y \<Longrightarrow> x = y"
  by (simp add: code_def)

lemma code_lt: "code x < 256"
  by (simp add: code_def)

lemma code_char_of: "n < 256 \<Longrightarrow> code (char_of n) = n"
  by (simp add: code_def of_char_of take_bit_eq_mod)

lemma lower_char_cases:
  "lower_char x = x \<or> (97 \<le> code (lower_char x) \<and> code (lower_char x) \<le> 122 \<and> code x + 32 = code (lower_char x))
   \<or> (224 \<le> code (lower_char x) \<and> code (lower_char x) \<le> 254 \<and> code x + 32 = code (lower_char x))"
  unfolding lower_char_def Let_def using code_lt[of x]
  by (auto simp: code_char_of)

lemma upper_char_cases:
  "upper_char x = x \<or> (65 \<le> code (upper_char x) \<and> code (upper_char x) \<le> 90 \<and> code x = code (upper_char x) + 32)
   \<or> (192 \<le> code (upper_char x) \<and> code (upper_char x) \<le> 222 \<and> code x = code (upper_char x) + 32)"
  unfolding upper_char_def Let_def using code_lt[of x]
  by (auto simp: code_char_of)

lemma is_space_lower: "is_space (lower_char x) = is_space x"
  using lower_char_cases[of x] by (auto simp: is_space_def Let_def)

lemma is_space_upper: "is_space (upper_char x) = is_space x"
  using upper_char_cases[of x] by (auto simp: is_space_def Let_def)

lemma is_word_lower_Char:
  "is_word (lower_char (Char b0 b1 b2 b3 b4 b5 b6 b7)) = is_word (Char b0 b1 b2 b3 b4 b5 b6 b7)"
  by (cases b0; cases b1; cases b2; cases b3; cases b4; cases b5; cases b6; cases b7;
      simp add: lower_char_Char is_word_def code_Char)

lemma is_word_lower: "is_word (lower_char x) = is_word x"
  by (cases x) (simp only: is_word_lower_Char)

lemma is_word_upper_Char:
  "is_word (upper_char (Char b0 b1 b2 b3 b4 b5 b6 b7)) = is_word (Char b0 b1 b2 b3 b4 b5 b6 b7)"
  by (cases b0; cases b1; cases b2; cases b3; cases b4; cases b5; cases b6; cases b7;
      simp add: upper_char_Char is_word_def code_Char)

lemma is_word_upper: "is_word (upper_char x) = is_word x"
  by (cases x) (simp only: is_word_upper_Char)

lemma lower_char_punct: "code c < 65 \<Longrightarrow> lower_char x = c \<longleftrightarrow> x = c"
  using lower_char_cases[of x] by (auto simp: lower_char_def Let_def)

lemma upper_char_punct: "code c < 65 \<Longrightarrow> upper_char x = c \<longleftrightarrow> x = c"
  using upper_char_cases[of x] by (auto simp: upper_char_def Let_def)

lemma is_word_not_space: "is_word x \<Longrightarrow> \<not> is_space x"
  by (auto simp: is_word_def is_space_def Let_def)

lemma punct_codes:
  "code (CHR ''='') = 61" "code (CHR '':'') = 58" "code (CHR 0x22) = 34" "code (CHR 0x27) = 39"
  "code (CHR ''-'') = 45" "code (CHR ''/'') = 47" "code (CHR ''['') = 91" "code (CHR '']'') = 93"
  by (simp_all add: code_def)

lemma punct_not_word:
  "\<not> is_word (CHR ''='')" "\<not> is_word (CHR '':'')" "\<not> is_word (CHR 0x22)"
  "\<not> is_word (CHR 0x27)" "\<not> is_word (CHR ''-'')" "\<not> is_word (CHR ''/'')"
  "\<not> is_word (CHR ''['')" "\<not> is_word (CHR '']'')"
  by (simp_all add: is_word_def code_Char)

lemma punct_not_space:
  "\<not> is_space (CHR ''='')" "\<not> is_space (CHR '':'')" "\<not> is_space (CHR 0x22)"
  "\<not> is_space (CHR 0x27)" "\<not> is_space (CHR ''-'')" "\<not> is_space (CHR ''/'')"
  "\<not> is_space (CHR ''['')" "\<not> is_space (CHR '']'')"
  by (simp_all add: is_space_def code_Char)

section \<open>Character sets and repetitions of one set\<close>

lemma cls_space: "cls_match ic False [Space] x = is_space x"
  by (simp add: cls_match_def in_set_def is_space_lower is_space_upper)

lemma cls_non_space: "cls_match ic False [NonSpace] x = (\<not> is_space x)"
  by (simp add: cls_match_def in_set_def is_space_lower is_space_upper)

lemma cls_not_space: "cls_match ic True [Space] x = (\<not> is_space x)"
  by (simp add: cls_match_def in_set_def is_space_lower is_space_upper)

lemma cls_assign: "cls_match ic False [Ch (CHR ''=''), Ch (CHR '':'')] x = (x = CHR ''='' \<or> x = CHR '':'')"
  by (auto simp: cls_match_def in_set_def lower_char_punct upper_char_punct punct_codes)

lemma cls_quote: "cls_match ic False [Ch (CHR 0x22), Ch (CHR 0x27)] x = (x = CHR 0x22 \<or> x = CHR 0x27)"
  by (auto simp: cls_match_def in_set_def lower_char_punct upper_char_punct punct_codes)

lemma cls_not_space_quote:
  "cls_match ic True [Space, Ch (CHR 0x22), Ch (CHR 0x27)] x
     = (\<not> is_space x \<and> x \<noteq> CHR 0x22 \<and> x \<noteq> CHR 0x27)"
  by (auto simp: cls_match_def in_set_def lower_char_punct upper_char_punct punct_codes
      is_space_lower is_space_upper)

lemma cls_word_hyphen: "cls_match ic False [Word, Ch (CHR ''-'')] x = (is_word x \<or> x = CHR ''-'')"
  by (auto simp: cls_match_def in_set_def lower_char_punct upper_char_punct punct_codes
      is_word_lower is_word_upper)

lemma chr_eq_punct: "code c < 65 \<Longrightarrow> chr_eq ic c x = (x = c)"
  using lower_char_punct[of c x] lower_char_punct[of c c]
  by (auto simp: chr_eq_def)

lemma sep_unique:
  assumes "xs @ b # ys = k @ a # w" and "b \<notin> set k" and "b \<notin> set w"
  shows "xs = k \<and> b = a \<and> ys = w"
proof -
  from assms(1) obtain us where
    "(xs = k @ us \<and> us @ b # ys = a # w) \<or> (xs @ us = k \<and> b # ys = us @ a # w)"
    unfolding append_eq_append_conv2 by blast
  then show ?thesis
  proof
    assume h: "xs = k @ us \<and> us @ b # ys = a # w"
    show ?thesis
    proof (cases us)
      case Nil
      with h show ?thesis by simp
    next
      case (Cons u us')
      with h have "us' @ b # ys = w" by simp
      then have "b \<in> set w" by auto
      with assms(3) show ?thesis by simp
    qed
  next
    assume h: "xs @ us = k \<and> b # ys = us @ a # w"
    show ?thesis
    proof (cases us)
      case Nil
      with h show ?thesis by simp
    next
      case (Cons u us')
      with h have "u = b" by simp
      with h Cons have "b \<in> set k" by auto
      with assms(2) show ?thesis by simp
    qed
  qed
qed

lemma lang_Star_Cls:
  assumes "m \<in> lang ic (Star (Cls neg items))"
  shows "list_all (cls_match ic neg items) m"
proof -
  from assms obtain ms where m: "m = concat ms" and ms: "set ms \<subseteq> lang ic (Cls neg items)"
    by auto
  have "cls_match ic neg items y" if "y \<in> set m" for y
  proof -
    from that m obtain xa where xa: "xa \<in> set ms" "y \<in> set xa" by auto
    with ms have "xa \<in> lang ic (Cls neg items)" by blast
    then obtain x where "xa = [x]" "cls_match ic neg items x" by auto
    with xa show ?thesis by simp
  qed
  then show ?thesis by (simp add: list_all_iff)
qed

lemma lang_ws:
  assumes "m \<in> lang ic ws"
  shows "list_all is_space m"
proof -
  have "list_all (cls_match ic False [Space]) m"
    using assms unfolding ws_def by (rule lang_Star_Cls)
  then show ?thesis by (simp add: list_all_iff cls_space)
qed

lemma lang_assign: "m \<in> lang ic assign \<longleftrightarrow> m = [CHR ''=''] \<or> m = [CHR '':'']"
  by (auto simp: assign_def cls_assign)

lemma rmatch_Star_Cls_all:
  "list_all (cls_match ic neg items) w \<Longrightarrow>
   rmatch ic (Star (Cls neg items)) (c, w) = map (Pair c) (suffixes w)"
proof (induction w)
  case Nil
  show ?case by (subst rmatch.simps) simp
next
  case (Cons x xs)
  then have x: "cls_match ic neg items x" and xs: "list_all (cls_match ic neg items) xs" by simp_all
  have "rmatch ic (Star (Cls neg items)) (c, x # xs) =
        rmatch ic (Star (Cls neg items)) (c, xs) @ [(c, x # xs)]"
    by (subst rmatch.simps) (simp add: x)
  then show ?case using Cons.IH[OF xs] by simp
qed

lemma rmatch_Star_Cls_stop:
  "s = [] \<or> \<not> cls_match ic neg items (hd s) \<Longrightarrow> rmatch ic (Star (Cls neg items)) (c, s) = [(c, s)]"
  by (subst rmatch.simps) (cases s; auto)

lemma rmatch_Star_Cls:
  assumes "list_all (cls_match ic neg items) w" and "s = [] \<or> \<not> cls_match ic neg items (hd s)"
  shows "rmatch ic (Star (Cls neg items)) (c, w @ s) = map (\<lambda>t. (c, t @ s)) (suffixes w)"
  using assms(1)
proof (induction w)
  case Nil
  show ?case using rmatch_Star_Cls_stop[OF assms(2)] by simp
next
  case (Cons x xs)
  then have x: "cls_match ic neg items x" and xs: "list_all (cls_match ic neg items) xs" by simp_all
  have "rmatch ic (Star (Cls neg items)) (c, (x # xs) @ s) =
        rmatch ic (Star (Cls neg items)) (c, xs @ s) @ [(c, (x # xs) @ s)]"
    by (subst rmatch.simps) (simp add: x)
  then show ?case using Cons.IH[OF xs] by simp
qed

section \<open>Redaction: concrete texts\<close>














section \<open>Claims about redaction\<close>














section \<open>Claims about the recorder\<close>

text \<open>
  C2. The price table is searched in its order and \<open>gpt-4o\<close> comes before
  \<open>gpt-4o-mini\<close>: a model name that contains \<open>gpt-4o-mini\<close> contains \<open>gpt-4o\<close>, so it
  is priced as \<open>gpt-4o\<close>, and a million prompt tokens cost 2.5, not 0.15. A model name
  that contains no key of the table costs 0.
\<close>

theorem C2_mini_priced_as_gpt4o:
  "(sublist ''gpt-4o-mini'' (lower name) \<longrightarrow>
      calculate_estimated_cost (JStr name) (JInt 1000000) (JInt 0) = Inr (5 / 2))
   \<and> (list_all (\<lambda>(k, p). \<not> sublist k (lower other)) pricing \<longrightarrow>
      calculate_estimated_cost (JStr other) prompt_tokens response_tokens = Inr 0)"
  using cost_mini cost_unknown by blast

theorem C2_mini_priced_as_gpt4o_witness:
  "sublist ''gpt-4o-mini'' (lower ''openai/GPT-4o-mini'')
   \<and> calculate_estimated_cost (JStr ''openai/GPT-4o-mini'') (JInt 1000000) (JInt 0) = Inr (5 / 2)
   \<and> list_all (\<lambda>(k, p). \<not> sublist k (lower ''claude-3-opus'')) pricing
   \<and> calculate_estimated_cost (JStr ''claude-3-opus'') (JInt 1000000) (JInt 0) = Inr 0"
proof -
  have a: "sublist ''gpt-4o-mini'' (lower ''openai/GPT-4o-mini'')"
    by (simp add: lower_def lower_char_Char code_Char sublist_code)
  have b: "list_all (\<lambda>(k, p). \<not> sublist k (lower ''claude-3-opus'')) pricing"
    by (simp add: pricing_def lower_def lower_char_Char code_Char sublist_code)
  show ?thesis
    using a b C2_mini_priced_as_gpt4o[of "''openai/GPT-4o-mini''" "''claude-3-opus''" "JInt 1000000" "JInt 0"]
    by blast
qed

text \<open>
  C3, as stated, fails: with an index file that is not JSON, the update leaves the file as
  it is and prints a warning; no fresh index is written and the new entry is in no index.
\<close>

theorem C3_counterexample:
  "read_json (files (update_history_index example_env
       \<lparr>files = [(''index.json'', File 0 Malformed)], printed = []\<rparr> example_entry)) ''index.json''
     = Inl JSONDecodeError
   \<and> printed (update_history_index example_env
       \<lparr>files = [(''index.json'', File 0 Malformed)], printed = []\<rparr> example_entry)
     = [Index_warning JSONDecodeError]"
  by (rule malformed_example)

text \<open>
  C3, amended. When the index file is not JSON, updating the index raises nothing to the
  caller: the error of the parser is caught, a warning is printed, and the directory, the
  index file included, is left as it was.
\<close>

theorem C3_malformed_index_kept:
  "map_of (files st) ''index.json'' = Some (File t Malformed) \<longrightarrow>
   update_history_index e st entry = st\<lparr>printed := printed st @ [Index_warning JSONDecodeError]\<rparr>"
  using malformed_index by blast

theorem C3_malformed_index_kept_witness:
  "map_of (files \<lparr>files = [(''index.json'', File 0 Malformed)], printed = []\<rparr>) ''index.json''
     = Some (File 0 Malformed)
   \<and> update_history_index example_env \<lparr>files = [(''index.json'', File 0 Malformed)], printed = []\<rparr>
       example_entry
     = \<lparr>files = [(''index.json'', File 0 Malformed)], printed = [Index_warning JSONDecodeError]\<rparr>"
  using C3_malformed_index_kept[of "\<lparr>files = [(''index.json'', File 0 Malformed)], printed = []\<rparr>"
      0 example_env example_entry]
  by simp

text \<open>
  C9. For every sanitized prompt and response the statistics are built without an
  exception: the ratio is the integer 0 when the prompt is empty, and otherwise the
  quotient of the lengths, and the average word length divides by the number of words or
  by 1 when there is none.
\<close>

theorem C9_statistics_total:
  "statistics_of p r =
     Inr (JObj [(''prompt_to_response_ratio'',
                   if p = [] then JInt 0
                   else JNum (round_to 2 (of_int (int (length r)) / of_int (int (length p))))),
                (''avg_response_word_length'',
                   JNum (round_to 2 (of_int (int (length r)) / of_int (max (int (length (split_ws r))) 1)))),
                (''response_lines'', JInt (int (count_list r (CHR 0x0A)) + 1))])"
  by (rule stats_total)

theorem C9_statistics_total_witness:
  "statistics_of [] [] =
     Inr (JObj [(''prompt_to_response_ratio'', JInt 0), (''avg_response_word_length'', JNum 0),
                (''response_lines'', JInt 1)])"
  using C9_statistics_total[of "[]" "[]"]
  by (simp add: split_ws.simps round_to_zero)

text \<open>
  C10. Pruning deletes only entries whose names match \<open>history_*.json\<close>: for every
  directory and every \<open>keep_last\<close>, the entries with other names are the same after
  pruning, in the same order; what is left is a part of the directory as it was; and
  \<open>index.json\<close>, which does not match the pattern, is the same file as before.
\<close>

theorem C10_pruning_frame:
  "filter (\<lambda>(n, f). \<not> history_name n) (cleanup_old_history d keep_last)
     = filter (\<lambda>(n, f). \<not> history_name n) d
   \<and> subseq (cleanup_old_history d keep_last) d
   \<and> \<not> history_name ''index.json''
   \<and> map_of (cleanup_old_history d keep_last) ''index.json'' = map_of d ''index.json''"
  using cleanup_frame cleanup_subseq index_not_history cleanup_keeps by blast

theorem C10_pruning_frame_witness:
  "map_of (cleanup_old_history example_directory 2) ''index.json'' = Some (File 30 Malformed)
   \<and> subseq (cleanup_old_history example_directory 2) example_directory"
proof -
  have "map_of (cleanup_old_history example_directory 2) ''index.json''
          = map_of example_directory ''index.json''"
    and s: "subseq (cleanup_old_history example_directory 2) example_directory"
    using C10_pruning_frame[of example_directory 2] by blast+
  moreover have "map_of example_directory ''index.json'' = Some (File 30 Malformed)"
    by (simp add: example_directory_def)
  ultimately show ?thesis by simp
qed

text \<open>
  C8. When an index update completes, the index it has written holds the summary of the
  new entry first, followed by the summaries the loaded index held, and its
  \<open>total_interactions\<close> is the length of that list. Along a sequence of recordings that
  starts from the empty store, each recording whose token counts are not negative leaves
  \<open>total_tokens_used\<close> and \<open>total_estimated_cost\<close> at least as large as they were.
  After \<open>N\<close> recordings from the empty store, \<open>total_interactions\<close> is \<open>N\<close> and the list
  has \<open>N\<close> summaries.
\<close>

theorem C8_index_invariants:
  "(index_body e d entry = Inr d' \<longrightarrow>
      (\<exists>loaded idx smry older.
          load_index e d = Inr loaded \<and> getitem loaded ''interactions'' = Inr (JArr older)
        \<and> read_json d' ''index.json'' = Inr idx \<and> summary_of entry = Inr smry
        \<and> getitem idx ''interactions'' = Inr (JArr (smry # older))
        \<and> getitem idx ''total_interactions'' = Inr (JInt (int (length (smry # older))))))
   \<and> (list_all builds_entry cs \<and> builds_entry c \<and> nonneg_counts (c_result c) \<longrightarrow>
        tokens_used (current_index (record_all empty_store cs))
          \<le> tokens_used (current_index (record_all empty_store (cs @ [c])))
      \<and> total_cost (current_index (record_all empty_store cs))
          \<le> total_cost (current_index (record_all empty_store (cs @ [c]))))
   \<and> (list_all builds_entry cs \<longrightarrow>
        getitem (current_index (record_all empty_store cs)) ''total_interactions''
          = Inr (JInt (int (length cs)))
      \<and> (\<exists>xs. getitem (current_index (record_all empty_store cs)) ''interactions'' = Inr (JArr xs)
             \<and> length xs = length cs))"
proof (intro conjI impI)
  assume a: "index_body e d entry = Inr d'"
  then obtain loaded idx where lo: "load_index e d = Inr loaded"
    and up: "updated_index loaded entry = Inr idx"
    and w: "write_json d ''index.json'' (now e) idx = Inr d'"
    unfolding index_body_def bind_exn_Inr by blast
  from updated_index_first[OF up] obtain smry older where
    "summary_of entry = Inr smry" "getitem loaded ''interactions'' = Inr (JArr older)"
    "getitem idx ''interactions'' = Inr (JArr (smry # older))"
    "getitem idx ''total_interactions'' = Inr (JInt (int (length (smry # older))))"
    by blast
  then show "\<exists>loaded idx smry older.
          load_index e d = Inr loaded \<and> getitem loaded ''interactions'' = Inr (JArr older)
        \<and> read_json d' ''index.json'' = Inr idx \<and> summary_of entry = Inr smry
        \<and> getitem idx ''interactions'' = Inr (JArr (smry # older))
        \<and> getitem idx ''total_interactions'' = Inr (JInt (int (length (smry # older))))"
    using lo read_write_json[OF w] by blast
next
  assume "list_all builds_entry cs \<and> builds_entry c \<and> nonneg_counts (c_result c)"
  then show "tokens_used (current_index (record_all empty_store cs))
          \<le> tokens_used (current_index (record_all empty_store (cs @ [c])))"
    and "total_cost (current_index (record_all empty_store cs))
          \<le> total_cost (current_index (record_all empty_store (cs @ [c])))"
    using totals_never_decrease by blast+
next
  assume "list_all builds_entry cs"
  then show "getitem (current_index (record_all empty_store cs)) ''total_interactions''
          = Inr (JInt (int (length cs)))"
    and "\<exists>xs. getitem (current_index (record_all empty_store cs)) ''interactions'' = Inr (JArr xs)
             \<and> length xs = length cs"
    using count_after_recording by blast+
qed

lemma example_index_body:
  "index_body example_env [] example_entry =
     Inr [(''index.json'', File 1704067200 (Document (JObj
            [(''created_at'', JStr ''2024-01-01T00:00:00.000000''),
             (''total_interactions'', JInt 1),
             (''total_tokens_used'', JInt 150),
             (''total_estimated_cost'', JNum (3 / 4000)),
             (''interactions'',
              JArr [JObj
                 [(''session_id'', JStr ''20240101_000000_5d41402a''),
                  (''timestamp'', JStr ''2024-01-01T00:00:00.000000''),
                  (''provider'', JStr ''openrouter''),
                  (''model'', JStr ''gpt-4o''), (''tokens'', JInt 150),
                  (''cost'', JNum (3 / 4000)),
                  (''files_processed'', JInt 2),
                  (''response_preview'', JStr ''hello'')]])])))]"
  by (simp add: index_body_def load_index_def fresh_index_def example_env_def example_entry_def
      updated_index_def add_interaction_def add_tokens_def add_cost_def summary_of_def
      bind_exn_simps py_add_def write_json_def round_to_def round_half_even_def)

theorem C8_index_invariants_witness:
  "index_body example_env [] example_entry =
     Inr [(''index.json'', File 1704067200 (Document (JObj
            [(''created_at'', JStr ''2024-01-01T00:00:00.000000''),
             (''total_interactions'', JInt 1),
             (''total_tokens_used'', JInt 150),
             (''total_estimated_cost'', JNum (3 / 4000)),
             (''interactions'',
              JArr [JObj
                 [(''session_id'', JStr ''20240101_000000_5d41402a''),
                  (''timestamp'', JStr ''2024-01-01T00:00:00.000000''),
                  (''provider'', JStr ''openrouter''),
                  (''model'', JStr ''gpt-4o''), (''tokens'', JInt 150),
                  (''cost'', JNum (3 / 4000)),
                  (''files_processed'', JInt 2),
                  (''response_preview'', JStr ''hello'')]])])))]
   \<and> list_all builds_entry (map example_call [0..<2]) \<and> builds_entry (example_call 2)
   \<and> nonneg_counts (c_result (example_call 2))
   \<and> tokens_used (current_index (record_all empty_store (map example_call [0..<2])))
        \<le> tokens_used (current_index (record_all empty_store (map example_call [0..<2] @ [example_call 2])))
   \<and> total_cost (current_index (record_all empty_store (map example_call [0..<2])))
        \<le> total_cost (current_index (record_all empty_store (map example_call [0..<2] @ [example_call 2])))
   \<and> getitem (current_index (record_all empty_store (map example_call [0..<2]))) ''total_interactions''
        = Inr (JInt 2)"
proof -
  note t = C8_index_invariants[of example_env "[]" example_entry _ "map example_call [0..<2]" "example_call 2"]
  have b: "list_all builds_entry (map example_call [0..<2])" by (rule builds_examples)
  have "getitem (current_index (record_all empty_store (map example_call [0..<2]))) ''total_interactions''
        = Inr (JInt (int (length (map example_call [0..<2]))))"
    using t b by blast
  then have n: "getitem (current_index (record_all empty_store (map example_call [0..<2]))) ''total_interactions''
        = Inr (JInt 2)" by simp
  show ?thesis
    using example_index_body b builds_example[of 2] nonneg_example[of 2] t n by blast
qed

text \<open>
  C4, as stated, fails: recording never prunes. After 105 recordings from the empty store,
  each with its own file name, the directory holds 105 record files.
\<close>

theorem C4_counterexample:
  "length (glob_history (files (record_all empty_store (map example_call [0..<105])))) = 105"
  by (rule recorded_105)

text \<open>
  C4, amended. A sequence of recordings from the empty store, each with its own file
  name, leaves one record file for each recording. When \<open>cleanup_old_history\<close> is then
  called with a limit \<open>keep_last\<close> between 0 and the number of recordings (100 after
  105 recordings), exactly \<open>keep_last\<close> record files remain, every remaining record
  file was modified no earlier than every deleted one, and nothing else in the directory
  has changed.
\<close>

theorem C4_prune_after_recording:
  "list_all builds_entry cs \<and> distinct (map call_file cs) \<and> 0 \<le> keep_last
     \<and> keep_last \<le> int (length cs) \<longrightarrow>
   length (glob_history (files (record_all empty_store cs))) = length cs
   \<and> length (glob_history (cleanup_old_history (files (record_all empty_store cs)) keep_last))
       = nat keep_last
   \<and> (\<forall>kept gone.
         kept \<in> set (glob_history (cleanup_old_history (files (record_all empty_store cs)) keep_last))
       \<and> gone \<in> set (glob_history (files (record_all empty_store cs)))
       \<and> gone \<notin> set (glob_history (cleanup_old_history (files (record_all empty_store cs)) keep_last))
       \<longrightarrow> mtime (snd gone) \<le> mtime (snd kept))
   \<and> filter (\<lambda>(n, f). \<not> history_name n) (cleanup_old_history (files (record_all empty_store cs)) keep_last)
       = filter (\<lambda>(n, f). \<not> history_name n) (files (record_all empty_store cs))
   \<and> subseq (cleanup_old_history (files (record_all empty_store cs)) keep_last)
        (files (record_all empty_store cs))"
proof (intro impI)
  let ?d = "files (record_all empty_store cs)"
  assume a: "list_all builds_entry cs \<and> distinct (map call_file cs) \<and> 0 \<le> keep_last
     \<and> keep_last \<le> int (length cs)"
  then have inv: "store_inv (length cs) (record_all empty_store cs)"
    using store_inv_all by blast
  then have dd: "distinct (map fst ?d)" and fl: "list_all is_file ?d"
    by (simp_all add: store_inv_def)
  have n: "length (glob_history ?d) = length cs"
    using a count_files_after_recording by blast
  have k: "length (glob_history (cleanup_old_history ?d keep_last)) = nat keep_last"
  proof -
    have "nat keep_last \<le> length cs" using a by linarith
    then show ?thesis using cleanup_prunes(2)[OF dd fl, of keep_last] a n by simp
  qed
  have m: "\<forall>kept gone.
         kept \<in> set (glob_history (cleanup_old_history ?d keep_last))
       \<and> gone \<in> set (glob_history ?d)
       \<and> gone \<notin> set (glob_history (cleanup_old_history ?d keep_last))
       \<longrightarrow> mtime (snd gone) \<le> mtime (snd kept)"
    using cleanup_newest[OF dd fl] a by blast
  show "length (glob_history ?d) = length cs
   \<and> length (glob_history (cleanup_old_history ?d keep_last)) = nat keep_last
   \<and> (\<forall>kept gone.
         kept \<in> set (glob_history (cleanup_old_history ?d keep_last))
       \<and> gone \<in> set (glob_history ?d)
       \<and> gone \<notin> set (glob_history (cleanup_old_history ?d keep_last))
       \<longrightarrow> mtime (snd gone) \<le> mtime (snd kept))
   \<and> filter (\<lambda>(n, f). \<not> history_name n) (cleanup_old_history ?d keep_last)
       = filter (\<lambda>(n, f). \<not> history_name n) ?d
   \<and> subseq (cleanup_old_history ?d keep_last) ?d"
    using n k m cleanup_frame cleanup_subseq by blast
qed

theorem C4_prune_after_recording_witness:
  "list_all builds_entry (map example_call [0..<105])
   \<and> distinct (map call_file (map example_call [0..<105]))
   \<and> length (glob_history (cleanup_old_history
         (files (record_all empty_store (map example_call [0..<105]))) 100)) = 100"
proof -
  have b: "list_all builds_entry (map example_call [0..<105])" by (rule builds_examples)
  have d: "distinct (map call_file (map example_call [0..<105]))"
    by (rule example_files_distinct) simp
  have "length (glob_history (cleanup_old_history
         (files (record_all empty_store (map example_call [0..<105]))) 100)) = nat 100"
    using C4_prune_after_recording[of "map example_call [0..<105]" 100] b d by simp
  then show ?thesis using b d by simp
qed

end
